theory Spec2Isabelle
  imports Main "HOL-Library.Sublist"
begin

section \<open>JavaScript strings\<close>

text \<open>
  A JavaScript string is modelled as a \<^typ>\<open>string\<close>: a list of code units below 256
  (the Latin-1 range). The helpers below follow ECMAScript on that range.
\<close>

text \<open>A thrown JavaScript error, with its message.\<close>

datatype exn = Exn string

definition code :: "char \<Rightarrow> nat" where
  "code c = of_char c"

text \<open>\<^verbatim>\<open>String.prototype.toLowerCase\<close> and \<^verbatim>\<open>toUpperCase\<close> on one code unit.
  The upper-case images of U+00B5, U+00DF and U+00FF lie outside the range (or are two
  units long), so the regular-expression canonicalisation leaves those three alone.\<close>

definition js_lower_char :: "char \<Rightarrow> char" where
  "js_lower_char c =
     (if (65 \<le> code c \<and> code c \<le> 90) \<or> (192 \<le> code c \<and> code c \<le> 222 \<and> code c \<noteq> 215)
      then char_of (code c + 32) else c)"

definition js_upper_char :: "char \<Rightarrow> char" where
  "js_upper_char c =
     (if (97 \<le> code c \<and> code c \<le> 122) \<or> (224 \<le> code c \<and> code c \<le> 254 \<and> code c \<noteq> 247)
      then char_of (code c - 32) else c)"

definition toLowerCase :: "string \<Rightarrow> string" where
  "toLowerCase s = map js_lower_char s"

text \<open>White space and line terminators of ECMAScript below 256: TAB, LF, VT, FF, CR,
  SP and NBSP. \<^verbatim>\<open>trim\<close> and the class \<^verbatim>\<open>\s\<close> use this set.\<close>

definition js_space :: "char \<Rightarrow> bool" where
  "js_space c = (code c \<in> {9, 10, 11, 12, 13, 32, 160})"

definition trimStart :: "string \<Rightarrow> string" where
  "trimStart s = dropWhile js_space s"

definition trimEnd :: "string \<Rightarrow> string" where
  "trimEnd s = rev (dropWhile js_space (rev s))"

definition trim :: "string \<Rightarrow> string" where
  "trim s = trimEnd (trimStart s)"

definition startsWith :: "string \<Rightarrow> string \<Rightarrow> bool" where
  "startsWith s p = prefix p s"

definition endsWith :: "string \<Rightarrow> string \<Rightarrow> bool" where
  "endsWith s p = suffix p s"

text \<open>\<^verbatim>\<open>s.includes(t)\<close>: \<open>t\<close> occurs in \<open>s\<close> as a contiguous run.\<close>

fun js_includes :: "string \<Rightarrow> string \<Rightarrow> bool" where
  "js_includes [] t = (t = [])"
| "js_includes (c # cs) t = (prefix t (c # cs) \<or> js_includes cs t)"

text \<open>\<^verbatim>\<open>s.split("\n")\<close>: the pieces between line feeds; the empty string gives one
  empty piece.\<close>

fun split_lines :: "string \<Rightarrow> string list" where
  "split_lines [] = [[]]"
| "split_lines (c # cs) =
     (if c = CHR 0x0A then [] # split_lines cs
      else (case split_lines cs of l # ls \<Rightarrow> (c # l) # ls | [] \<Rightarrow> [[c]]))"

text \<open>\<^verbatim>\<open>xs.join(sep)\<close>.\<close>

fun join :: "string \<Rightarrow> string list \<Rightarrow> string" where
  "join sep [] = []"
| "join sep [x] = x"
| "join sep (x # y # ys) = x @ sep @ join sep (y # ys)"

text \<open>\<^verbatim>\<open>s.replace(/t/g, r)\<close> for a literal, non-empty \<open>t\<close>: occurrences are taken
  left to right and do not overlap.\<close>

function replaceAll :: "string \<Rightarrow> string \<Rightarrow> string \<Rightarrow> string" where
  "replaceAll t r s =
     (if t = [] \<or> s = [] then s
      else if prefix t s then r @ replaceAll t r (drop (length t) s)
      else hd s # replaceAll t r (tl s))"
  by pat_completeness auto
termination
  by (relation "measure (\<lambda>(t, r, s). length s)") auto

declare replaceAll.simps [simp del]

section \<open>Regular expressions\<close>

text \<open>
  The fragment of ECMAScript regular expressions the SDK uses, with the backtracking
  order of the language: a matcher returns every way to continue, best first, and the
  first one is the match JavaScript reports.
\<close>

datatype citem = CChar char | CRange char char | CDigit | CSpace | CNonSpace | CWord

fun citem_ok :: "citem \<Rightarrow> char \<Rightarrow> bool" where
  "citem_ok (CChar a) c = (a = c)"
| "citem_ok (CRange a b) c = (code a \<le> code c \<and> code c \<le> code b)"
| "citem_ok CDigit c = (48 \<le> code c \<and> code c \<le> 57)"
| "citem_ok CSpace c = js_space c"
| "citem_ok CNonSpace c = (\<not> js_space c)"
| "citem_ok CWord c =
     ((48 \<le> code c \<and> code c \<le> 57) \<or> (65 \<le> code c \<and> code c \<le> 90) \<or>
      (97 \<le> code c \<and> code c \<le> 122) \<or> code c = 95)"

text \<open>Membership in a character class; with the \<^verbatim>\<open>i\<close> flag a character belongs when
  some member has the same canonical (upper-case) form.\<close>

definition class_has :: "bool \<Rightarrow> citem list \<Rightarrow> char \<Rightarrow> bool" where
  "class_has ic items c =
     ((\<exists>i \<in> set items. citem_ok i c) \<or>
      (ic \<and> (\<exists>i \<in> set items. citem_ok i (js_upper_char c) \<or> citem_ok i (js_lower_char c))))"

datatype re =
    Eps
  | Lit char
  | Cls bool "citem list"
  | Dot
  | Seq re re
  | Alt re re
  | Opt bool re
  | Star bool re
  | Grp nat re
  | Bref nat
  | Look re
  | Bol
  | Eol

type_synonym captures = "(nat \<times> string) list"

text \<open>A matcher state: the index reached, the input still to read, the groups captured.\<close>

type_synonym rstate = "nat \<times> string \<times> captures"

definition lit_ok :: "bool \<Rightarrow> char \<Rightarrow> char \<Rightarrow> bool" where
  "lit_ok ic a c = (if ic then js_upper_char a = js_upper_char c else a = c)"

definition line_terminator :: "char \<Rightarrow> bool" where
  "line_terminator c = (code c = 10 \<or> code c = 13)"

text \<open>Iteration of a starred matcher. An iteration that consumes nothing is rejected, as
  in ECMAScript, so the length of the input bounds the number of iterations.\<close>

fun star_iter :: "bool \<Rightarrow> (rstate \<Rightarrow> rstate list) \<Rightarrow> nat \<Rightarrow> rstate \<Rightarrow> rstate list" where
  "star_iter g f 0 st = [st]"
| "star_iter g f (Suc k) st =
     (let more = concat (map (star_iter g f k)
                   (filter (\<lambda>st'. length (fst (snd st')) < length (fst (snd st))) (f st)))
      in if g then more @ [st] else st # more)"

fun bref_ok :: "bool \<Rightarrow> string \<Rightarrow> string \<Rightarrow> bool" where
  "bref_ok ic [] inp = True"
| "bref_ok ic (a # w) [] = False"
| "bref_ok ic (a # w) (c # cs) = (lit_ok ic a c \<and> bref_ok ic w cs)"

fun rm :: "bool \<Rightarrow> re \<Rightarrow> rstate \<Rightarrow> rstate list" where
  "rm ic Eps st = [st]"
| "rm ic (Lit a) (p, inp, caps) =
     (case inp of [] \<Rightarrow> [] | c # cs \<Rightarrow> if lit_ok ic a c then [(Suc p, cs, caps)] else [])"
| "rm ic (Cls neg items) (p, inp, caps) =
     (case inp of [] \<Rightarrow> []
      | c # cs \<Rightarrow> if class_has ic items c \<noteq> neg then [(Suc p, cs, caps)] else [])"
| "rm ic Dot (p, inp, caps) =
     (case inp of [] \<Rightarrow> [] | c # cs \<Rightarrow> if line_terminator c then [] else [(Suc p, cs, caps)])"
| "rm ic (Seq a b) st = concat (map (rm ic b) (rm ic a st))"
| "rm ic (Alt a b) st = rm ic a st @ rm ic b st"
| "rm ic (Opt g a) st = (if g then rm ic a st @ [st] else st # rm ic a st)"
| "rm ic (Star g a) st = star_iter g (rm ic a) (length (fst (snd st))) st"
| "rm ic (Grp n a) (p, inp, caps) =
     map (\<lambda>(p', inp', caps'). (p', inp', (n, take (p' - p) inp) # caps')) (rm ic a (p, inp, caps))"
| "rm ic (Bref n) (p, inp, caps) =
     (case map_of caps n of None \<Rightarrow> [(p, inp, caps)]
      | Some w \<Rightarrow> if bref_ok ic w inp then [(p + length w, drop (length w) inp, caps)] else [])"
| "rm ic (Look a) st = (if rm ic a st = [] then [] else [st])"
| "rm ic Bol (p, inp, caps) = (if p = 0 then [(p, inp, caps)] else [])"
| "rm ic Eol (p, inp, caps) = (if inp = [] then [(p, inp, caps)] else [])"

text \<open>Regular expressions are written with these two abbreviations: a sequence of
  parts, and a literal word.\<close>

definition seq :: "re list \<Rightarrow> re" where
  "seq rs = foldr Seq rs Eps"

definition word :: "string \<Rightarrow> re" where
  "word s = seq (map Lit s)"

definition Plus :: "bool \<Rightarrow> re \<Rightarrow> re" where
  "Plus g a = Seq a (Star g a)"

text \<open>The result of one match: where it starts, what it matched, what follows it, and
  its groups.\<close>

record rmatch =
  m_start :: nat
  m_text :: string
  m_rest :: string
  m_groups :: captures

definition group :: "rmatch \<Rightarrow> nat \<Rightarrow> string" where
  "group m n = (case map_of (m_groups m) n of None \<Rightarrow> [] | Some w \<Rightarrow> w)"

text \<open>\<^verbatim>\<open>regex.exec\<close> from index \<open>p\<close>, with \<open>inp\<close> the input from that index on: the
  leftmost start that matches, and the best match there.\<close>

fun re_exec_from :: "bool \<Rightarrow> re \<Rightarrow> nat \<Rightarrow> string \<Rightarrow> rmatch option" where
  "re_exec_from ic r p inp =
     (case rm ic r (p, inp, []) of
        (p', inp', caps) # _ \<Rightarrow>
          Some \<lparr>m_start = p, m_text = take (p' - p) inp, m_rest = inp', m_groups = caps\<rparr>
      | [] \<Rightarrow> (case inp of [] \<Rightarrow> None | c # cs \<Rightarrow> re_exec_from ic r (Suc p) cs))"

declare re_exec_from.simps [simp del]

text \<open>\<^verbatim>\<open>s.match(regex)\<close> without the \<^verbatim>\<open>g\<close> flag, and \<^verbatim>\<open>regex.test(s)\<close>.\<close>

definition re_match :: "bool \<Rightarrow> re \<Rightarrow> string \<Rightarrow> rmatch option" where
  "re_match ic r s = re_exec_from ic r 0 s"

definition re_test :: "bool \<Rightarrow> re \<Rightarrow> string \<Rightarrow> bool" where
  "re_test ic r s = (re_match ic r s \<noteq> None)"

lemma re_exec_from_start: "re_exec_from ic r p inp = Some m \<Longrightarrow> p \<le> m_start m"
proof (induction inp arbitrary: p)
  case Nil
  then show ?case
    by (auto simp: re_exec_from.simps [of ic r p "[]"] split: list.splits)
next
  case (Cons c cs)
  show ?case
  proof (cases "rm ic r (p, c # cs, [])")
    case Nil
    then have "re_exec_from ic r (Suc p) cs = Some m"
      using Cons.prems by (simp add: re_exec_from.simps [of ic r p "c # cs"])
    then have "Suc p \<le> m_start m" by (rule Cons.IH)
    then show ?thesis by simp
  next
    case (Cons st sts)
    then show ?thesis
      using Cons.prems by (cases st) (auto simp: re_exec_from.simps [of ic r p "c # cs"])
  qed
qed

text \<open>The matches of a regular expression with the \<^verbatim>\<open>g\<close> flag, from index \<open>i\<close> of \<open>s\<close> on:
  after a match the search goes on at its end, one character later when the match is
  empty, and stops when that index is past the end of the string.\<close>

function re_match_all_from :: "bool \<Rightarrow> re \<Rightarrow> string \<Rightarrow> nat \<Rightarrow> rmatch list" where
  "re_match_all_from ic r s i =
     (if length s < i then []
      else (case re_exec_from ic r i (drop i s) of
              None \<Rightarrow> []
            | Some m \<Rightarrow>
                m # re_match_all_from ic r s
                      (m_start m + length (m_text m) + (if m_text m = [] then 1 else 0))))"
  by pat_completeness auto
termination
proof (relation "measure (\<lambda>(ic, r, s, i). Suc (length s) - i)")
  show "wf (measure (\<lambda>(ic, r, s, i). Suc (length s) - i))" by simp
next
  fix ic r s i m
  assume "\<not> length s < i" and "re_exec_from ic r i (drop i s) = Some m"
  then have "i \<le> m_start m" and "i \<le> length s" using re_exec_from_start by auto
  then have "i < m_start m + length (m_text m) + (if m_text m = [] then 1 else 0)"
    by (cases "m_text m") auto
  then show "((ic, r, s, m_start m + length (m_text m) + (if m_text m = [] then 1 else 0)), (ic, r, s, i))
              \<in> measure (\<lambda>(ic, r, s, i). Suc (length s) - i)"
    using \<open>i \<le> length s\<close> by simp
qed

declare re_match_all_from.simps [simp del]

definition re_match_all :: "bool \<Rightarrow> re \<Rightarrow> string \<Rightarrow> rmatch list" where
  "re_match_all ic r s = re_match_all_from ic r s 0"

text \<open>\<^verbatim>\<open>s.match(regex)\<close> with the \<^verbatim>\<open>g\<close> flag: the matched texts, \<open>None\<close> (null) when there is
  no match.\<close>

definition match_global :: "bool \<Rightarrow> re \<Rightarrow> string \<Rightarrow> string list option" where
  "match_global ic r s = (case re_match_all ic r s of [] \<Rightarrow> None | ms \<Rightarrow> Some (map m_text ms))"

text \<open>\<^verbatim>\<open>s.replace(regex, f)\<close> with the \<^verbatim>\<open>g\<close> flag: \<open>splice\<close> copies the text between the
  matches and puts the replacement of each match in its place; \<open>s\<close> is the text from
  index \<open>i\<close> on. The callback also gets the number of the match, counted from 1.\<close>

fun splice :: "string \<Rightarrow> nat \<Rightarrow> (rmatch \<times> string) list \<Rightarrow> string" where
  "splice s i [] = s"
| "splice s i ((m, rep) # ms) =
     take (m_start m - i) s @ rep @
     splice (drop (m_start m - i + length (m_text m)) s) (m_start m + length (m_text m)) ms"

definition re_replace_all :: "bool \<Rightarrow> re \<Rightarrow> (rmatch \<Rightarrow> nat \<Rightarrow> string) \<Rightarrow> string \<Rightarrow> string" where
  "re_replace_all ic r f s =
     (let ms = re_match_all ic r s
      in splice s 0 (map (\<lambda>(m, k). (m, f m k)) (zip ms [1 ..< Suc (length ms)])))"

section \<open>JavaScript objects\<close>

text \<open>
  The own properties of a plain object with string keys, as an association list in the
  order of their creation. An assignment to a key the object has replaces the value in
  place; an assignment to a new key creates the property last.
\<close>

fun set_own :: "(string \<times> 'v) list \<Rightarrow> string \<Rightarrow> 'v \<Rightarrow> (string \<times> 'v) list" where
  "set_own [] k v = [(k, v)]"
| "set_own ((k', v') # al) k v = (if k' = k then (k, v) # al else (k', v') # set_own al k v)"

text \<open>An array index is the canonical decimal numeral of an integer below \<open>2\<^sup>3\<^sup>2 - 1\<close>:
  digits only, and no leading zero unless it is \<^verbatim>\<open>0\<close> itself.\<close>

definition decimal_digit :: "char \<Rightarrow> bool" where
  "decimal_digit c = (48 \<le> code c \<and> code c \<le> 57)"

definition decimal_value :: "string \<Rightarrow> nat" where
  "decimal_value s = foldl (\<lambda>n c. 10 * n + (code c - 48)) 0 s"

definition array_index :: "string \<Rightarrow> nat option" where
  "array_index k =
     (if k \<noteq> [] \<and> list_all decimal_digit k \<and> (k = ''0'' \<or> hd k \<noteq> CHR ''0'') \<and>
         decimal_value k < 4294967295
      then Some (decimal_value k) else None)"

text \<open>The order in which \<^verbatim>\<open>Object.entries\<close> and the spread \<^verbatim>\<open>{...obj}\<close> list the own
  properties: the array indices in ascending numeric order, then the other keys in the
  order of their creation.\<close>

definition Object_entries :: "(string \<times> 'v) list \<Rightarrow> (string \<times> 'v) list" where
  "Object_entries props =
     sort_key (\<lambda>e. case array_index (fst e) of Some n \<Rightarrow> n | None \<Rightarrow> 0)
       (filter (\<lambda>e. array_index (fst e) \<noteq> None) props) @
     filter (\<lambda>e. array_index (fst e) = None) props"

text \<open>The names every plain object inherits from \<^verbatim>\<open>Object.prototype\<close>, apart from the
  accessor \<^verbatim>\<open>__proto__\<close>; each of them is a function.\<close>

definition object_prototype_names :: "string list" where
  "object_prototype_names =
     [''constructor'', ''__defineGetter__'', ''__defineSetter__'', ''hasOwnProperty'',
      ''__lookupGetter__'', ''__lookupSetter__'', ''isPrototypeOf'', ''propertyIsEnumerable'',
      ''toString'', ''valueOf'', ''toLocaleString'']"
section \<open>Configuration and request context\<close>

datatype managed_file_mode = Append | Merge | Replace | Disabled

datatype page_type = Product | Article | Docs | Faq | HowTo | Pricing | Comparison | Generic

text \<open>\<^verbatim>\<open>Headers\<close>: the entries in order, names as given. Names compare without case;
  \<^verbatim>\<open>get\<close> joins the values of the name with \<^verbatim>\<open>", "\<close>; \<^verbatim>\<open>set\<close> leaves one entry for
  the name.\<close>

definition same_header :: "string \<Rightarrow> string \<times> string \<Rightarrow> bool" where
  "same_header hname e = (toLowerCase (fst e) = toLowerCase hname)"

definition headers_get :: "(string \<times> string) list \<Rightarrow> string \<Rightarrow> string option" where
  "headers_get hs hname =
     (case filter (same_header hname) hs of
        [] \<Rightarrow> None
      | e # es \<Rightarrow> Some (join '', '' (map snd (e # es))))"

definition headers_set :: "string \<Rightarrow> string \<Rightarrow> (string \<times> string) list \<Rightarrow> (string \<times> string) list" where
  "headers_set hname v hs = filter (\<lambda>e. \<not> same_header hname e) hs @ [(hname, v)]"

text \<open>\<^verbatim>\<open>Response\<close>: the status, the headers, the body (\<open>None\<close> for a null body) and
  whether the body has been read. A \<^verbatim>\<open>Response\<close> is an object, and reading its body
  changes it: the functions that read one return its new state.\<close>

record response =
  status :: nat
  headers :: "(string \<times> string) list"
  body :: "string option"
  bodyUsed :: bool

text \<open>\<^verbatim>\<open>await response.text()\<close>: the text and the state of the response afterwards. A
  null body reads as the empty string; a body that was read before cannot be read
  again.\<close>

definition response_text :: "response \<Rightarrow> (exn + string) \<times> response" where
  "response_text r =
     (case body r of
        None \<Rightarrow> (Inr [], r)
      | Some b \<Rightarrow>
          if bodyUsed r then (Inl (Exn ''TypeError: body already used''), r)
          else (Inr b, r\<lparr>bodyUsed := True\<rparr>))"

text \<open>\<^verbatim>\<open>new Response(body, {status, headers})\<close> with a string for the body. The
  constructor throws a \<^verbatim>\<open>RangeError\<close> for a status outside 200 to 599, and a
  \<^verbatim>\<open>TypeError\<close> when a body is given with a null body status; it adds the content type of
  a string body when the headers have none.\<close>

definition null_body_status :: "nat \<Rightarrow> bool" where
  "null_body_status s = (s \<in> {101, 103, 204, 205, 304})"

definition new_Response :: "string \<Rightarrow> nat \<Rightarrow> (string \<times> string) list \<Rightarrow> exn + response" where
  "new_Response b s hs =
     (if s < 200 \<or> 599 < s then Inl (Exn ''RangeError: status'')
      else if null_body_status s then Inl (Exn ''TypeError: null body status'')
      else Inr \<lparr>status = s,
                headers = (if headers_get hs ''Content-Type'' = None
                           then hs @ [(''content-type'', ''text/plain;charset=UTF-8'')] else hs),
                body = Some b, bodyUsed = False\<rparr>)"

text \<open>\<^verbatim>\<open>GeoPageRule\<close>. \<^verbatim>\<open>customJsonLd\<close> is kept as its list of top-level keys with
  the values printed as text.\<close>

record geo_page_rule =
  urlPattern :: string
  pageType :: "page_type option"
  schemaTypes :: "string list option"
  summary :: "string option"
  customJsonLd :: "(string \<times> string) list option"
  disabled :: "bool option"

text \<open>\<^verbatim>\<open>ResolvedConfig\<close>: the sections \<^verbatim>\<open>robotsTxt\<close> and \<^verbatim>\<open>sitemap\<close> share one shape.\<close>

record file_section =
  enabled :: bool
  mode :: managed_file_mode
  content :: "string option"

record well_known_file =
  wk_mode :: managed_file_mode
  wk_content :: "string option"

text \<open>
  The object \<^verbatim>\<open>wellKnown.files\<close>: its own properties in the order of their creation, and
  its prototype, which is \<^verbatim>\<open>Object.prototype\<close> (\<open>None\<close>) until an assignment to
  \<^verbatim>\<open>__proto__\<close> makes the assigned object the prototype.
\<close>

record wk_files =
  own_files :: "(string \<times> well_known_file) list"
  files_proto :: "well_known_file option"

definition empty_files :: wk_files where
  "empty_files = \<lparr>own_files = [], files_proto = None\<rparr>"

text \<open>\<^verbatim>\<open>files[k] = v\<close> with an object \<open>v\<close>: an assignment to \<^verbatim>\<open>__proto__\<close> runs the setter
  of \<^verbatim>\<open>Object.prototype\<close>, unless the object has an own property of that name.\<close>

definition files_set :: "wk_files \<Rightarrow> string \<Rightarrow> well_known_file \<Rightarrow> wk_files" where
  "files_set obj k v =
     (if k = ''__proto__'' \<and> map_of (own_files obj) k = None
      then obj\<lparr>files_proto := Some v\<rparr>
      else obj\<lparr>own_files := set_own (own_files obj) k v\<rparr>)"

text \<open>What \<^verbatim>\<open>files[k]\<close> evaluates to: \<open>Missing\<close> is \<^verbatim>\<open>undefined\<close> or the empty string,
  \<open>File\<close> is a file entry, and \<open>Foreign\<close> is any other value, which is truthy and has
  neither \<^verbatim>\<open>mode\<close> nor \<^verbatim>\<open>content\<close>: an inherited function, \<^verbatim>\<open>Object.prototype\<close> itself, or
  a non-empty string held by the prototype.\<close>

datatype file_lookup = Missing | File well_known_file | Foreign

definition files_get :: "wk_files \<Rightarrow> string \<Rightarrow> file_lookup" where
  "files_get obj k =
     (case map_of (own_files obj) k of
        Some v \<Rightarrow> File v
      | None \<Rightarrow>
          (case files_proto obj of
             None \<Rightarrow> if k = ''__proto__'' \<or> k \<in> set object_prototype_names then Foreign else Missing
           | Some v \<Rightarrow>
               if k = ''__proto__'' then File v
               else if k = ''mode'' then Foreign
               else if k = ''content''
               then (case wk_content v of
                       None \<Rightarrow> Missing
                     | Some c \<Rightarrow> if c = [] then Missing else Foreign)
               else if k \<in> set object_prototype_names then Foreign else Missing))"

record well_known_section =
  wk_enabled :: bool
  files :: wk_files

record geo_section =
  geo_enabled :: bool
  injectJsonLd :: bool
  injectSummary :: bool
  cfg_enrichHeadings :: bool
  rules :: "geo_page_rule list"

record resolved_config =
  robotsTxt :: file_section
  sitemap :: file_section
  wellKnown :: well_known_section
  geo :: geo_section

text \<open>\<^verbatim>\<open>ResponseContext\<close>, with the fields the pipeline reads: the parsed URL (its
  \<^verbatim>\<open>href\<close> and \<^verbatim>\<open>pathname\<close>), the origin response, the AI-bot flag and the page type
  the GEO stage sets.\<close>

record response_context =
  href :: string
  pathname :: string
  ctx_response :: response
  isAiBot :: bool
  ctx_pageType :: "page_type option"

text \<open>\<^verbatim>\<open>GeoOptimizationResult\<close>. A response in it may be the response the function was
  given, in the state the function left it in.\<close>

record geo_result =
  modified :: bool
  geo_response :: response
  geo_pageType :: "page_type option"

section \<open>The config merger (managed-rules/config-merger.ts)\<close>

text \<open>\<^verbatim>\<open>a ?? b\<close>, with \<open>None\<close> for \<^verbatim>\<open>undefined\<close> and \<^verbatim>\<open>null\<close>.\<close>

definition nullish :: "'a option \<Rightarrow> 'a \<Rightarrow> 'a" where
  "nullish a b = (case a of Some v \<Rightarrow> v | None \<Rightarrow> b)"

text \<open>\<^verbatim>\<open>ManagedRulesConfig\<close>: the SDK's code-level configuration.\<close>

record sdk_file_section =
  sdk_enabled :: bool
  sdk_mode :: managed_file_mode

text \<open>The \<^verbatim>\<open>files\<close> of the SDK configuration and of the remote bundle are only read with
  \<^verbatim>\<open>Object.entries\<close> and the spread, so they are their own properties in the order of
  creation.\<close>

record sdk_well_known =
  sdk_wk_enabled :: bool
  sdk_files :: "(string \<times> managed_file_mode) list"

record geo_rule_config =
  grc_enabled :: bool
  grc_pageTypes :: "page_type list option"
  grc_injectSummary :: "bool option"
  grc_injectJsonLd :: "bool option"
  grc_enrichHeadings :: "bool option"
  grc_rules :: "geo_page_rule list option"

record managed_rules_config =
  sdk_robotsTxt :: "sdk_file_section option"
  sdk_sitemap :: "sdk_file_section option"
  sdk_wellKnown :: "sdk_well_known option"
  sdk_geo :: "geo_rule_config option"

text \<open>\<^verbatim>\<open>RemoteConfigBundle\<close>: parsed JSON, so every field the merger reads with \<^verbatim>\<open>??\<close>
  or \<^verbatim>\<open>||\<close> may be absent.\<close>

record remote_file_section =
  r_enabled :: "bool option"
  r_mode :: "managed_file_mode option"
  r_content :: "string option"

record remote_wk_file =
  rf_mode :: "managed_file_mode option"
  rf_content :: "string option"

record remote_well_known =
  rwk_enabled :: "bool option"
  rwk_files :: "(string \<times> remote_wk_file) list"

record remote_geo =
  rg_enabled :: "bool option"
  rg_injectJsonLd :: "bool option"
  rg_injectSummary :: "bool option"
  rg_enrichHeadings :: "bool option"
  rg_rules :: "geo_page_rule list option"

record remote_config_bundle =
  rb_robotsTxt :: "remote_file_section option"
  rb_sitemap :: "remote_file_section option"
  rb_wellKnown :: "remote_well_known option"
  rb_geo :: "remote_geo option"

definition DEFAULTS :: resolved_config where
  "DEFAULTS =
     \<lparr>robotsTxt = \<lparr>enabled = False, mode = Append, content = None\<rparr>,
      sitemap = \<lparr>enabled = False, mode = Merge, content = None\<rparr>,
      wellKnown = \<lparr>wk_enabled = False, files = empty_files\<rparr>,
      geo = \<lparr>geo_enabled = False, injectJsonLd = True, injectSummary = True,
             cfg_enrichHeadings = True, rules = []\<rparr>\<rparr>"

text \<open>\<^verbatim>\<open>remote?.section\<close>\<close>

definition remote_section :: "remote_config_bundle option \<Rightarrow> (remote_config_bundle \<Rightarrow> 'a option) \<Rightarrow> 'a option" where
  "remote_section remote sel = (case remote of None \<Rightarrow> None | Some b \<Rightarrow> sel b)"

definition mergeRobotsTxtConfig :: "managed_rules_config \<Rightarrow> remote_config_bundle option \<Rightarrow> file_section" where
  "mergeRobotsTxtConfig sdk remote =
     (let base_enabled = (case sdk_robotsTxt sdk of Some s \<Rightarrow> sdk_enabled s
                          | None \<Rightarrow> enabled (robotsTxt DEFAULTS));
          base_mode = (case sdk_robotsTxt sdk of Some s \<Rightarrow> sdk_mode s
                       | None \<Rightarrow> mode (robotsTxt DEFAULTS))
      in case remote_section remote rb_robotsTxt of
           None \<Rightarrow> \<lparr>enabled = base_enabled, mode = base_mode, content = None\<rparr>
         | Some r \<Rightarrow> \<lparr>enabled = nullish (r_enabled r) base_enabled,
                      mode = nullish (r_mode r) base_mode, content = r_content r\<rparr>)"

definition mergeSitemap :: "managed_rules_config \<Rightarrow> remote_config_bundle option \<Rightarrow> file_section" where
  "mergeSitemap sdk remote =
     (let base_enabled = (case sdk_sitemap sdk of Some s \<Rightarrow> sdk_enabled s
                          | None \<Rightarrow> enabled (sitemap DEFAULTS));
          base_mode = (case sdk_sitemap sdk of Some s \<Rightarrow> sdk_mode s
                       | None \<Rightarrow> mode (sitemap DEFAULTS))
      in case remote_section remote rb_sitemap of
           None \<Rightarrow> \<lparr>enabled = base_enabled, mode = base_mode, content = None\<rparr>
         | Some r \<Rightarrow> \<lparr>enabled = nullish (r_enabled r) base_enabled,
                      mode = nullish (r_mode r) base_mode, content = r_content r\<rparr>)"

text \<open>\<^verbatim>\<open>mergedFiles[name]?.mode\<close>\<close>

definition lookup_mode :: "wk_files \<Rightarrow> string \<Rightarrow> managed_file_mode option" where
  "lookup_mode obj k = (case files_get obj k of File v \<Rightarrow> Some (wk_mode v) | _ \<Rightarrow> None)"

text \<open>The two loops of \<^verbatim>\<open>mergeWellKnown\<close>: the SDK files without content, then the
  remote files laid over them.\<close>

definition sdk_file_step :: "string \<times> managed_file_mode \<Rightarrow> wk_files \<Rightarrow> wk_files" where
  "sdk_file_step e obj = files_set obj (fst e) \<lparr>wk_mode = snd e, wk_content = None\<rparr>"

definition remote_file_step :: "string \<times> remote_wk_file \<Rightarrow> wk_files \<Rightarrow> wk_files" where
  "remote_file_step e obj =
     files_set obj (fst e)
       \<lparr>wk_mode = nullish (rf_mode (snd e)) (nullish (lookup_mode obj (fst e)) Replace),
        wk_content = rf_content (snd e)\<rparr>"

text \<open>\<^verbatim>\<open>mergeWellKnown\<close>. \<open>base_files\<close> is the spread copy of the SDK's files, which both
  branches read with \<^verbatim>\<open>Object.entries\<close>.\<close>

definition mergeWellKnown :: "managed_rules_config \<Rightarrow> remote_config_bundle option \<Rightarrow> well_known_section" where
  "mergeWellKnown sdk remote =
     (let base_enabled = (case sdk_wellKnown sdk of Some w \<Rightarrow> sdk_wk_enabled w
                          | None \<Rightarrow> wk_enabled (wellKnown DEFAULTS));
          base_files = Object_entries (case sdk_wellKnown sdk of Some w \<Rightarrow> sdk_files w | None \<Rightarrow> [])
      in case remote_section remote rb_wellKnown of
           None \<Rightarrow>
             \<lparr>wk_enabled = base_enabled,
              files = fold sdk_file_step (Object_entries base_files) empty_files\<rparr>
         | Some rw \<Rightarrow>
             \<lparr>wk_enabled = nullish (rwk_enabled rw) base_enabled,
              files = fold remote_file_step (Object_entries (rwk_files rw))
                        (fold sdk_file_step (Object_entries base_files) empty_files)\<rparr>)"

text \<open>\<^verbatim>\<open>mergeGeoRules\<close>: the index of the dashboard rules (a later rule with the same
  pattern replaces an earlier one), the loop over the SDK rules, which also collects the
  patterns it overrode, and the loop that appends the remaining dashboard rules.\<close>

definition dashboardByPattern :: "geo_page_rule list \<Rightarrow> (string \<rightharpoonup> geo_page_rule)" where
  "dashboardByPattern dashboardRules = fold (\<lambda>rule m. m(urlPattern rule \<mapsto> rule)) dashboardRules Map.empty"

fun merge_sdk_rules ::
  "(string \<rightharpoonup> geo_page_rule) \<Rightarrow> geo_page_rule list \<Rightarrow> geo_page_rule list \<Rightarrow> string set \<Rightarrow>
     geo_page_rule list \<times> string set" where
  "merge_sdk_rules byPattern [] merged usedPatterns = (merged, usedPatterns)"
| "merge_sdk_rules byPattern (sdkRule # rest) merged usedPatterns =
     (case byPattern (urlPattern sdkRule) of
        Some dashboardOverride \<Rightarrow>
          merge_sdk_rules byPattern rest (merged @ [dashboardOverride])
            (insert (urlPattern sdkRule) usedPatterns)
      | None \<Rightarrow> merge_sdk_rules byPattern rest (merged @ [sdkRule]) usedPatterns)"

definition mergeGeoRules :: "geo_page_rule list \<Rightarrow> geo_page_rule list \<Rightarrow> geo_page_rule list" where
  "mergeGeoRules sdkRules dashboardRules =
     (let (merged, usedPatterns) =
            merge_sdk_rules (dashboardByPattern dashboardRules) sdkRules [] {}
      in merged @ filter (\<lambda>dashboardRule. urlPattern dashboardRule \<notin> usedPatterns) dashboardRules)"

definition mergeGeo :: "managed_rules_config \<Rightarrow> remote_config_bundle option \<Rightarrow> geo_section" where
  "mergeGeo sdk remote =
     (let base = (case sdk_geo sdk of
                    None \<Rightarrow> \<lparr>geo_enabled = geo_enabled (geo DEFAULTS),
                              injectJsonLd = injectJsonLd (geo DEFAULTS),
                              injectSummary = injectSummary (geo DEFAULTS),
                              cfg_enrichHeadings = cfg_enrichHeadings (geo DEFAULTS), rules = []\<rparr>
                  | Some g \<Rightarrow> \<lparr>geo_enabled = grc_enabled g,
                                injectJsonLd = nullish (grc_injectJsonLd g) (injectJsonLd (geo DEFAULTS)),
                                injectSummary = nullish (grc_injectSummary g) (injectSummary (geo DEFAULTS)),
                                cfg_enrichHeadings =
                                  nullish (grc_enrichHeadings g) (cfg_enrichHeadings (geo DEFAULTS)),
                                rules = nullish (grc_rules g) []\<rparr>)
      in case remote_section remote rb_geo of
           None \<Rightarrow> base
         | Some rg \<Rightarrow>
             \<lparr>geo_enabled = nullish (rg_enabled rg) (geo_enabled base),
              injectJsonLd = nullish (rg_injectJsonLd rg) (injectJsonLd base),
              injectSummary = nullish (rg_injectSummary rg) (injectSummary base),
              cfg_enrichHeadings = nullish (rg_enrichHeadings rg) (cfg_enrichHeadings base),
              rules = mergeGeoRules (rules base) (nullish (rg_rules rg) [])\<rparr>)"

definition mergeConfig :: "managed_rules_config \<Rightarrow> remote_config_bundle option \<Rightarrow> resolved_config" where
  "mergeConfig sdkConfig remote =
     \<lparr>robotsTxt = mergeRobotsTxtConfig sdkConfig remote,
      sitemap = mergeSitemap sdkConfig remote,
      wellKnown = mergeWellKnown sdkConfig remote,
      geo = mergeGeo sdkConfig remote\<rparr>"

text \<open>Example inputs: the SDK and the dashboard each configure the rule \<^verbatim>\<open>/products/*\<close>
  and the file \<^verbatim>\<open>ai-plugin.json\<close>; each side also has an entry of its own.\<close>

definition local_products_rule :: geo_page_rule where
  "local_products_rule =
     \<lparr>urlPattern = ''/products/*'', pageType = Some Product, schemaTypes = None, summary = None,
      customJsonLd = None, disabled = None\<rparr>"

definition local_docs_rule :: geo_page_rule where
  "local_docs_rule =
     \<lparr>urlPattern = ''/docs/**'', pageType = Some Docs, schemaTypes = None, summary = None,
      customJsonLd = None, disabled = None\<rparr>"

definition remote_products_rule :: geo_page_rule where
  "remote_products_rule =
     \<lparr>urlPattern = ''/products/*'', pageType = None, schemaTypes = None,
      summary = Some ''Dashboard summary'', customJsonLd = None, disabled = None\<rparr>"

definition remote_pricing_rule :: geo_page_rule where
  "remote_pricing_rule =
     \<lparr>urlPattern = ''/pricing'', pageType = Some Pricing, schemaTypes = None, summary = None,
      customJsonLd = None, disabled = None\<rparr>"

definition example_sdk_well_known :: sdk_well_known where
  "example_sdk_well_known =
     \<lparr>sdk_wk_enabled = True, sdk_files = [(''ai-plugin.json'', Replace), (''security.txt'', Disabled)]\<rparr>"

definition example_sdk_geo :: geo_rule_config where
  "example_sdk_geo =
     \<lparr>grc_enabled = True, grc_pageTypes = None, grc_injectSummary = None, grc_injectJsonLd = None,
      grc_enrichHeadings = None, grc_rules = Some [local_products_rule, local_docs_rule]\<rparr>"

definition example_sdk_config :: managed_rules_config where
  "example_sdk_config =
     \<lparr>sdk_robotsTxt = None, sdk_sitemap = None, sdk_wellKnown = Some example_sdk_well_known,
      sdk_geo = Some example_sdk_geo\<rparr>"

definition example_remote_well_known :: remote_well_known where
  "example_remote_well_known =
     \<lparr>rwk_enabled = Some True,
      rwk_files = [(''llms.txt'', \<lparr>rf_mode = Some Replace, rf_content = Some ''LLM data''\<rparr>),
                   (''ai-plugin.json'', \<lparr>rf_mode = None, rf_content = Some ''{}''\<rparr>)]\<rparr>"

definition example_remote_geo :: remote_geo where
  "example_remote_geo =
     \<lparr>rg_enabled = Some True, rg_injectJsonLd = None, rg_injectSummary = None,
      rg_enrichHeadings = None, rg_rules = Some [remote_products_rule, remote_pricing_rule]\<rparr>"

definition example_remote_bundle :: remote_config_bundle where
  "example_remote_bundle =
     \<lparr>rb_robotsTxt = None, rb_sitemap = None, rb_wellKnown = Some example_remote_well_known,
      rb_geo = Some example_remote_geo\<rparr>"

text \<open>Example inputs with names that are not ordinary: an SDK configuration that lists
  \<^verbatim>\<open>b.txt\<close> before \<^verbatim>\<open>1\<close>, and a remote bundle with a file named \<^verbatim>\<open>__proto__\<close>.\<close>

definition numeric_sdk_config :: managed_rules_config where
  "numeric_sdk_config =
     \<lparr>sdk_robotsTxt = None, sdk_sitemap = None,
      sdk_wellKnown = Some \<lparr>sdk_wk_enabled = True, sdk_files = [(''b.txt'', Replace), (''1'', Replace)]\<rparr>,
      sdk_geo = None\<rparr>"

definition proto_remote_bundle :: remote_config_bundle where
  "proto_remote_bundle =
     \<lparr>rb_robotsTxt = None, rb_sitemap = None,
      rb_wellKnown = Some \<lparr>rwk_enabled = Some True,
                           rwk_files = [(''__proto__'', \<lparr>rf_mode = Some Replace, rf_content = Some ''x''\<rparr>)]\<rparr>,
      rb_geo = None\<rparr>"
section \<open>The remote config client (managed-rules/api-client.ts)\<close>

text \<open>\<^verbatim>\<open>encodeURIComponent\<close> on code units below 256: the unreserved characters stay, every
  other character becomes the percent-escapes of its UTF-8 bytes.\<close>

definition hex_digit :: "nat \<Rightarrow> char" where
  "hex_digit n = (if n < 10 then char_of (48 + n) else char_of (55 + n))"

definition percent_byte :: "nat \<Rightarrow> string" where
  "percent_byte b = [CHR ''%'', hex_digit (b div 16), hex_digit (b mod 16)]"

definition uri_unreserved :: "char \<Rightarrow> bool" where
  "uri_unreserved c =
     ((48 \<le> code c \<and> code c \<le> 57) \<or> (65 \<le> code c \<and> code c \<le> 90) \<or>
      (97 \<le> code c \<and> code c \<le> 122) \<or> c \<in> set ''-_.!~*'()'')"

definition encode_char :: "char \<Rightarrow> string" where
  "encode_char c =
     (if uri_unreserved c then [c]
      else if code c < 128 then percent_byte (code c)
      else percent_byte (192 + code c div 64) @ percent_byte (128 + code c mod 64))"

definition encodeURIComponent :: "string \<Rightarrow> string" where
  "encodeURIComponent s = concat (map encode_char s)"

text \<open>
  A value of type \<^verbatim>\<open>RemoteConfigBundle | null\<close> is a \<^typ>\<open>remote_config_bundle option\<close>.
  A response stored in the edge cache keeps its \<^verbatim>\<open>Content-Type\<close>, the number of its
  \<^verbatim>\<open>Cache-Control: public, max-age=N\<close> header, and the JSON value its body holds
  (\<^verbatim>\<open>JSON.stringify\<close> followed by \<^verbatim>\<open>json()\<close> gives the value back). The cache key is the
  request URL with the \<^verbatim>\<open>X-API-Key\<close> header.
\<close>

record cached_response =
  content_type :: string
  max_age :: nat
  cached_json :: "remote_config_bundle option"

type_synonym edge_cache = "(string \<times> string) \<rightharpoonup> cached_response"

text \<open>The answer of the API: its status and what \<^verbatim>\<open>response.json()\<close> gives, \<open>None\<close>
  when the body does not parse.\<close>

record api_response =
  api_status :: nat
  api_json :: "remote_config_bundle option option"

text \<open>What the surroundings do during one call: whether \<^verbatim>\<open>caches.default\<close> exists,
  whether \<^verbatim>\<open>cache.match\<close> and \<^verbatim>\<open>cache.put\<close> reject, and what \<^verbatim>\<open>fetch\<close> does (\<open>None\<close>: a
  network error).\<close>

record fetch_env =
  cache_available :: bool
  match_throws :: bool
  put_throws :: bool
  network :: "api_response option"

definition try_catch :: "(exn + 'a) \<Rightarrow> (exn \<Rightarrow> exn + 'a) \<Rightarrow> exn + 'a" where
  "try_catch block handler = (case block of Inl e \<Rightarrow> handler e | Inr v \<Rightarrow> Inr v)"

definition cache_match :: "fetch_env \<Rightarrow> edge_cache \<Rightarrow> string \<times> string \<Rightarrow> exn + cached_response option" where
  "cache_match env cache key = (if match_throws env then Inl (Exn ''cache.match'') else Inr (cache key))"

definition cache_put :: "fetch_env \<Rightarrow> edge_cache \<Rightarrow> string \<times> string \<Rightarrow> cached_response \<Rightarrow> exn + edge_cache" where
  "cache_put env cache key response =
     (if put_throws env then Inl (Exn ''cache.put'') else Inr (cache(key \<mapsto> response)))"

definition cacheResponse ::
  "fetch_env \<Rightarrow> edge_cache \<Rightarrow> string \<Rightarrow> string \<Rightarrow> cached_response \<Rightarrow> exn + edge_cache" where
  "cacheResponse env cache url apiKey response =
     try_catch
       (if \<not> cache_available env then Inr cache
        else cache_put env cache (url, apiKey) response)
       (\<lambda>e. Inr cache)"

definition response_ok :: "nat \<Rightarrow> bool" where
  "response_ok st = (200 \<le> st \<and> st \<le> 299)"

text \<open>The first \<^verbatim>\<open>try\<close> block of \<^verbatim>\<open>fetchConfig\<close>: \<open>Inr (Some v)\<close> is its \<^verbatim>\<open>return\<close>,
  \<open>Inr None\<close> is leaving the block without one.\<close>

definition try_edge_cache ::
  "fetch_env \<Rightarrow> edge_cache \<Rightarrow> string \<Rightarrow> string \<Rightarrow> exn + remote_config_bundle option option" where
  "try_edge_cache env cache cacheUrl apiKey =
     try_catch
       (if \<not> cache_available env then Inl (Exn ''no cache'')
        else (case cache_match env cache (cacheUrl, apiKey) of
                Inl e \<Rightarrow> Inl e
              | Inr None \<Rightarrow> Inr None
              | Inr (Some cachedResponse) \<Rightarrow> Inr (Some (cached_json cachedResponse))))
       (\<lambda>e. Inr None)"

text \<open>The second \<^verbatim>\<open>try\<close> block: the call of the API.\<close>

definition fetch_from_api ::
  "fetch_env \<Rightarrow> edge_cache \<Rightarrow> string \<Rightarrow> string \<Rightarrow> nat \<Rightarrow>
     exn + (remote_config_bundle option \<times> edge_cache)" where
  "fetch_from_api env cache cacheUrl apiKey cacheTtlSeconds =
     try_catch
       (case network env of
          None \<Rightarrow> Inl (Exn ''fetch'')
        | Some response \<Rightarrow>
            if api_status response = 404
            then (case cacheResponse env cache cacheUrl apiKey
                         \<lparr>content_type = ''application/json'', max_age = cacheTtlSeconds,
                          cached_json = None\<rparr> of
                    Inl e \<Rightarrow> Inl e
                  | Inr cache' \<Rightarrow> Inr (None, cache'))
            else if \<not> response_ok (api_status response) then Inr (None, cache)
            else (case api_json response of
                    None \<Rightarrow> Inl (Exn ''json'')
                  | Some parsed \<Rightarrow>
                      (case cacheResponse env cache cacheUrl apiKey
                             \<lparr>content_type = ''application/json'', max_age = cacheTtlSeconds,
                              cached_json = parsed\<rparr> of
                         Inl e \<Rightarrow> Inl e
                       | Inr cache' \<Rightarrow> Inr (parsed, cache'))))
       (\<lambda>e. Inr (None, cache))"

definition config_url :: "string \<Rightarrow> string \<Rightarrow> string" where
  "config_url apiBaseUrl hostname = apiBaseUrl @ ''/v1/sdk-config/'' @ encodeURIComponent hostname"

text \<open>\<^verbatim>\<open>fetchConfig\<close> returns the bundle or null, and leaves the edge cache in a new state.\<close>

definition fetchConfig ::
  "fetch_env \<Rightarrow> edge_cache \<Rightarrow> string \<Rightarrow> string \<Rightarrow> string \<Rightarrow> nat \<Rightarrow>
     exn + (remote_config_bundle option \<times> edge_cache)" where
  "fetchConfig env cache hostname apiKey apiBaseUrl cacheTtlSeconds =
     (let cacheUrl = config_url apiBaseUrl hostname in
      case try_edge_cache env cache cacheUrl apiKey of
        Inl e \<Rightarrow> Inl e
      | Inr (Some cached) \<Rightarrow> Inr (cached, cache)
      | Inr None \<Rightarrow> fetch_from_api env cache cacheUrl apiKey cacheTtlSeconds)"

text \<open>A call reaches the network unless the edge cache answers.\<close>

definition cache_hit :: "fetch_env \<Rightarrow> edge_cache \<Rightarrow> string \<times> string \<Rightarrow> bool" where
  "cache_hit env cache key = (cache_available env \<and> \<not> match_throws env \<and> cache key \<noteq> None)"

text \<open>Example inputs: a working edge cache that is still empty, and an API that answers
  404.\<close>

definition env_not_found :: fetch_env where
  "env_not_found =
     \<lparr>cache_available = True, match_throws = False, put_throws = False,
      network = Some \<lparr>api_status = 404, api_json = None\<rparr>\<rparr>"

section \<open>Merging robots.txt (managed-rules/merge-utils.ts)\<close>

text \<open>\<^verbatim>\<open>RobotsBlock\<close>: one \<^verbatim>\<open>User-agent\<close> and its rule lines.\<close>

record robots_block =
  userAgent :: string
  ua_rules :: "string list"

text \<open>\<^verbatim>\<open>blocks.push({ userAgent: currentAgent, rules: currentRules })\<close> guarded by
  \<^verbatim>\<open>currentAgent !== null\<close>.\<close>

definition save_block :: "robots_block list \<Rightarrow> string option \<Rightarrow> string list \<Rightarrow> robots_block list" where
  "save_block blocks currentAgent currentRules =
     (case currentAgent of
        Some agent \<Rightarrow> blocks @ [\<lparr>userAgent = agent, ua_rules = currentRules\<rparr>]
      | None \<Rightarrow> blocks)"

text \<open>The loop of \<^verbatim>\<open>parseRobotsTxt\<close> over the lines, with its three variables.\<close>

fun parse_lines ::
  "string list \<Rightarrow> robots_block list \<Rightarrow> string option \<Rightarrow> string list \<Rightarrow> robots_block list" where
  "parse_lines [] blocks currentAgent currentRules = save_block blocks currentAgent currentRules"
| "parse_lines (rawLine # rest) blocks currentAgent currentRules =
     (let line = trim rawLine in
      if line = [] \<or> startsWith line ''#''
      then parse_lines rest blocks currentAgent currentRules
      else if startsWith (toLowerCase line) ''user-agent:''
      then parse_lines rest (save_block blocks currentAgent currentRules)
             (Some (trim (drop (length ''user-agent:'') line))) []
      else if currentAgent \<noteq> None
      then parse_lines rest blocks currentAgent (currentRules @ [line])
      else parse_lines rest blocks currentAgent currentRules)"

definition parseRobotsTxt :: "string \<Rightarrow> robots_block list" where
  "parseRobotsTxt contents = parse_lines (split_lines contents) [] None []"

definition blocksToString :: "robots_block list \<Rightarrow> string" where
  "blocksToString blocks =
     join [CHR 0x0A, CHR 0x0A]
       (map (\<lambda>block. join [CHR 0x0A] ((''User-agent: '' @ userAgent block) # ua_rules block)) blocks)"

text \<open>The index of the managed blocks by lower-cased agent: a later block with the same
  agent replaces an earlier one.\<close>

definition botmonByAgent :: "robots_block list \<Rightarrow> (string \<rightharpoonup> robots_block)" where
  "botmonByAgent botmonBlocks =
     fold (\<lambda>block m. m(toLowerCase (userAgent block) \<mapsto> block)) botmonBlocks Map.empty"

text \<open>The loop over the origin blocks, with \<^verbatim>\<open>mergedBlocks\<close> and \<^verbatim>\<open>usedAgents\<close>.\<close>

fun merge_origin_blocks ::
  "(string \<rightharpoonup> robots_block) \<Rightarrow> robots_block list \<Rightarrow> robots_block list \<Rightarrow> string set \<Rightarrow>
     robots_block list \<times> string set" where
  "merge_origin_blocks byAgent [] mergedBlocks usedAgents = (mergedBlocks, usedAgents)"
| "merge_origin_blocks byAgent (originBlock # rest) mergedBlocks usedAgents =
     (let agentKey = toLowerCase (userAgent originBlock) in
      case byAgent agentKey of
        Some override \<Rightarrow>
          merge_origin_blocks byAgent rest (mergedBlocks @ [override]) (insert agentKey usedAgents)
      | None \<Rightarrow> merge_origin_blocks byAgent rest (mergedBlocks @ [originBlock]) usedAgents)"

text \<open>The blocks \<^verbatim>\<open>mergeRobotsTxt\<close> hands to \<^verbatim>\<open>blocksToString\<close>.\<close>

definition merge_blocks :: "robots_block list \<Rightarrow> robots_block list \<Rightarrow> robots_block list" where
  "merge_blocks originBlocks botmonBlocks =
     (let (mergedBlocks, usedAgents) =
            merge_origin_blocks (botmonByAgent botmonBlocks) originBlocks [] {}
      in mergedBlocks @
         filter (\<lambda>botmonBlock. toLowerCase (userAgent botmonBlock) \<notin> usedAgents) botmonBlocks)"

definition mergeRobotsTxt :: "string \<Rightarrow> string \<Rightarrow> string" where
  "mergeRobotsTxt originContent botmonContent =
     blocksToString (merge_blocks (parseRobotsTxt originContent) (parseRobotsTxt botmonContent))"

text \<open>The lower-cased agent name, by which blocks are compared.\<close>

definition agent_key :: "robots_block \<Rightarrow> string" where
  "agent_key b = toLowerCase (userAgent b)"

text \<open>What the parser guarantees of a block it returns: the agent is trimmed and holds no
  line feed; every rule line is a non-empty trimmed line that is neither a comment nor
  a \<^verbatim>\<open>User-agent\<close> line.\<close>

definition rule_ok :: "string \<Rightarrow> bool" where
  "rule_ok r =
     (r \<noteq> [] \<and> trim r = r \<and> CHR 0x0A \<notin> set r \<and> \<not> startsWith r ''#'' \<and>
      \<not> startsWith (toLowerCase r) ''user-agent:'')"

definition agent_ok :: "string \<Rightarrow> bool" where
  "agent_ok a = (trim a = a \<and> CHR 0x0A \<notin> set a)"

definition block_ok :: "robots_block \<Rightarrow> bool" where
  "block_ok b = (agent_ok (userAgent b) \<and> list_all rule_ok (ua_rules b))"

text \<open>The lines \<^verbatim>\<open>blocksToString\<close> writes for one block, and for a list of blocks with
  the empty line between two blocks.\<close>

definition block_lines :: "robots_block \<Rightarrow> string list" where
  "block_lines b = (''User-agent: '' @ userAgent b) # ua_rules b"

fun sep_lines :: "robots_block list \<Rightarrow> string list" where
  "sep_lines [] = [[]]"
| "sep_lines [b] = block_lines b"
| "sep_lines (b # b' # bs) = block_lines b @ [] # sep_lines (b' # bs)"

text \<open>Example inputs: the origin and managed files of the handler's merge test; an origin
  file that names the agent \<^verbatim>\<open>*\<close> twice; a managed file that names one agent twice.\<close>

definition origin_robots :: string where
  "origin_robots = ''User-agent: *\<newline>Allow: /\<newline>\<newline>User-agent: Googlebot\<newline>Allow: /''"

definition managed_robots :: string where
  "managed_robots = ''User-agent: GPTBot\<newline>Disallow: /\<newline>\<newline>User-agent: *\<newline>Disallow: /private''"

definition origin_twice :: string where
  "origin_twice = ''User-agent: *\<newline>Allow: /a\<newline>User-agent: *\<newline>Allow: /b''"

definition managed_twice :: string where
  "managed_twice = ''User-agent: a\<newline>Disallow: /x\<newline>User-agent: A\<newline>Disallow: /y''"

section \<open>Glob patterns (geo/page-type-detector.ts)\<close>

text \<open>The characters \<^verbatim>\<open>globToRegex\<close> escapes: \<^verbatim>\<open>. + ^ $ { } ( ) | [ ] \<close> and the backslash.\<close>

definition backslash :: char where
  "backslash = CHR 0x5C"

definition escaped_chars :: string where
  "escaped_chars = ''.+^${}()|[]'' @ [backslash]"

text \<open>\<^verbatim>\<open>.replace(/[.+^${}()|[\]\\]/g, "\\$&")\<close>\<close>

definition escape_special :: "string \<Rightarrow> string" where
  "escape_special s = concat (map (\<lambda>c. if c \<in> set escaped_chars then [backslash, c] else [c]) s)"

text \<open>The source text of the regular expression: the four replacements in their order,
  between \<^verbatim>\<open>^\<close> and \<^verbatim>\<open>$\<close>.\<close>

definition glob_source :: "string \<Rightarrow> string" where
  "glob_source pattern =
     (let regexStr =
            replaceAll ''{{GLOBSTAR}}'' ''.*''
              (replaceAll ''*'' ''[^/]+''
                (replaceAll ''**'' ''{{GLOBSTAR}}'' (escape_special pattern)))
      in ''^'' @ regexStr @ ''$'')"

text \<open>
  \<^verbatim>\<open>new RegExp(source)\<close> for the sources \<^verbatim>\<open>globToRegex\<close> can build: the assertions \<^verbatim>\<open>^\<close> and
  \<^verbatim>\<open>$\<close>, a backslash before a punctuation character, the class \<^verbatim>\<open>[^/]\<close>, the dot, any
  other character standing for itself, and the quantifiers \<^verbatim>\<open>*\<close>, \<^verbatim>\<open>+\<close>, \<^verbatim>\<open>?\<close> after an atom,
  each optionally followed by \<^verbatim>\<open>?\<close> (lazy). A quantifier with nothing to repeat is the
  \<^verbatim>\<open>SyntaxError\<close> of JavaScript. Brackets, braces, parentheses and \<^verbatim>\<open>|\<close> never reach the
  constructor unescaped; the model reports them as not supported.
\<close>

definition quantifier_char :: "char \<Rightarrow> bool" where
  "quantifier_char c = (c = CHR ''*'' \<or> c = CHR ''+'' \<or> c = CHR ''?'')"

text \<open>One atom at the head of the source, with the number of characters after the first
  that it takes.\<close>

definition parse_atom :: "string \<Rightarrow> exn + (re \<times> nat)" where
  "parse_atom s =
     (case s of
        [] \<Rightarrow> Inl (Exn ''SyntaxError: unexpected end'')
      | c # cs \<Rightarrow>
          if c = backslash
          then (case cs of
                  [] \<Rightarrow> Inl (Exn ''SyntaxError: backslash at end of pattern'')
                | d # _ \<Rightarrow>
                    if d \<in> set escaped_chars \<or> quantifier_char d \<or> d = CHR ''/''
                    then Inr (Lit d, 1)
                    else Inl (Exn ''escape not supported''))
          else if c = CHR ''[''
          then (if prefix ''[^/]'' s then Inr (Cls True [CChar CHR ''/''], 3)
                else Inl (Exn ''class not supported''))
          else if c = CHR ''.'' then Inr (Dot, 0)
          else if quantifier_char c then Inl (Exn ''SyntaxError: nothing to repeat'')
          else if c \<in> set ''(){}|]'' then Inl (Exn ''not supported'')
          else Inr (Lit c, 0))"

text \<open>The quantifier after an atom, with the number of characters it takes.\<close>

definition parse_quantifier :: "re \<Rightarrow> string \<Rightarrow> re \<times> nat" where
  "parse_quantifier a s =
     (case s of
        [] \<Rightarrow> (a, 0)
      | q # qs \<Rightarrow>
          if quantifier_char q
          then (let lazy = (case qs of [] \<Rightarrow> False | l # _ \<Rightarrow> l = CHR ''?'');
                    greedy = \<not> lazy;
                    r = (if q = CHR ''*'' then Star greedy a
                         else if q = CHR ''+'' then Plus greedy a
                         else Opt greedy a)
                in (r, if lazy then 2 else 1))
          else (a, 0))"

function parse_terms :: "string \<Rightarrow> exn + re list" where
  "parse_terms s =
     (if s = [] then Inr []
      else if hd s = CHR ''^'' then map_sum id ((#) Bol) (parse_terms (tl s))
      else if hd s = CHR ''$'' then map_sum id ((#) Eol) (parse_terms (tl s))
      else (case parse_atom s of
              Inl e \<Rightarrow> Inl e
            | Inr (a, n) \<Rightarrow>
                (case parse_quantifier a (drop (Suc n) s) of
                   (r, k) \<Rightarrow> map_sum id ((#) r) (parse_terms (drop (Suc n + k) s)))))"
  by pat_completeness auto
termination
  by (relation "measure length") auto

declare parse_terms.simps [simp del]

definition new_RegExp :: "string \<Rightarrow> exn + re" where
  "new_RegExp source = map_sum id seq (parse_terms source)"

definition globToRegex :: "string \<Rightarrow> exn + re" where
  "globToRegex pattern = new_RegExp (glob_source pattern)"

text \<open>\<^verbatim>\<open>globToRegex(pattern).test(pathname)\<close>\<close>

definition glob_test :: "string \<Rightarrow> string \<Rightarrow> exn + bool" where
  "glob_test pattern path = map_sum id (\<lambda>regex. re_test False regex path) (globToRegex pattern)"

fun findMatchingRule :: "string \<Rightarrow> geo_page_rule list \<Rightarrow> exn + geo_page_rule option" where
  "findMatchingRule path [] = Inr None"
| "findMatchingRule path (rule # rest) =
     (case globToRegex (urlPattern rule) of
        Inl e \<Rightarrow> Inl e
      | Inr regex \<Rightarrow> if re_test False regex path then Inr (Some rule) else findMatchingRule path rest)"

section \<open>The page type detector (geo/page-type-detector.ts)\<close>

datatype confidence = High | Medium | Low

datatype detection_source = UrlPattern | MetaTag | ContentHeuristic | GeoRule | Default

text \<open>\<^verbatim>\<open>PageTypeResult\<close>. The source \<^verbatim>\<open>"geo-rule"\<close> is \<open>GeoRule\<close>.\<close>

record page_type_result =
  result_pageType :: page_type
  result_confidence :: confidence
  result_source :: detection_source

text \<open>Parts many of the regular expressions share: \<^verbatim>\<open>["']\<close>, \<^verbatim>\<open>[^"']\<close>, \<^verbatim>\<open>[^>]*\<close>,
  \<^verbatim>\<open>[\s\S]*?\<close> and an optional literal character.\<close>

definition quote :: re where
  "quote = Cls False [CChar CHR 0x22, CChar CHR 0x27]"

definition not_quote :: re where
  "not_quote = Cls True [CChar CHR 0x22, CChar CHR 0x27]"

definition not_gt_star :: re where
  "not_gt_star = Star True (Cls True [CChar CHR ''>''])"

definition any_lazy :: re where
  "any_lazy = Star False (Cls False [CSpace, CNonSpace])"

definition opt_char :: "char \<Rightarrow> re" where
  "opt_char c = Opt True (Lit c)"

text \<open>\<^verbatim>\<open>URL_PATTERNS\<close>, every entry with the \<^verbatim>\<open>i\<close> flag.\<close>

definition URL_PATTERNS :: "(re \<times> page_type) list" where
  "URL_PATTERNS =
     [(seq [word ''/product'', opt_char CHR ''s'', Lit CHR ''/''], Product),
      (word ''/shop/'', Product),
      (word ''/item/'', Product),
      (seq [word ''/pricing'', opt_char CHR ''/'', Eol], Pricing),
      (seq [word ''/plan'', opt_char CHR ''s'', opt_char CHR ''/'', Eol], Pricing),
      (seq [word ''/faq'', opt_char CHR ''/'', Eol], Faq),
      (word ''/frequently-asked'', Faq),
      (seq [word ''/doc'', opt_char CHR ''s'', Lit CHR ''/''], Docs),
      (word ''/documentation/'', Docs),
      (word ''/api/'', Docs),
      (word ''/guide/'', Docs),
      (word ''/blog/'', Article),
      (seq [word ''/article'', opt_char CHR ''s'', Lit CHR ''/''], Article),
      (seq [word ''/post'', opt_char CHR ''s'', Lit CHR ''/''], Article),
      (word ''/news/'', Article),
      (word ''/how-to'', HowTo),
      (word ''/tutorial'', HowTo),
      (word ''/compar'', Comparison),
      (word ''/vs/'', Comparison),
      (word ''-vs-'', Comparison)]"

text \<open>The loop of \<^verbatim>\<open>detectFromUrl\<close> over the table.\<close>

fun first_url_pattern :: "(re \<times> page_type) list \<Rightarrow> string \<Rightarrow> page_type_result option" where
  "first_url_pattern [] path = None"
| "first_url_pattern ((pattern, pt) # rest) path =
     (if re_test True pattern path
      then Some \<lparr>result_pageType = pt, result_confidence = Medium, result_source = UrlPattern\<rparr>
      else first_url_pattern rest path)"

definition detectFromUrl :: "string \<Rightarrow> page_type_result option" where
  "detectFromUrl path = first_url_pattern URL_PATTERNS path"

text \<open>\<^verbatim>\<open>/<meta[^>]*property=["']og:type["'][^>]*content=["']([^"']+)["']/i\<close> and the same
  with \<^verbatim>\<open>content\<close> before \<^verbatim>\<open>property\<close>.\<close>

definition og_type_first :: re where
  "og_type_first =
     seq [word ''<meta'', not_gt_star, word ''property='', quote, word ''og:type'', quote,
          not_gt_star, word ''content='', quote, Grp 1 (Plus True not_quote), quote]"

definition og_type_second :: re where
  "og_type_second =
     seq [word ''<meta'', not_gt_star, word ''content='', quote, Grp 1 (Plus True not_quote), quote,
          not_gt_star, word ''property='', quote, word ''og:type'', quote]"

text \<open>\<^verbatim>\<open>/<meta[^>]*property=["']article:published_time["']/i\<close>\<close>

definition published_time_meta :: re where
  "published_time_meta =
     seq [word ''<meta'', not_gt_star, word ''property='', quote, word ''article:published_time'', quote]"

text \<open>\<^verbatim>\<open>a || b\<close> on two results that are null or an object.\<close>

definition or_else :: "'a option \<Rightarrow> 'a option \<Rightarrow> 'a option" where
  "or_else a b = (case a of Some v \<Rightarrow> Some v | None \<Rightarrow> b)"

definition detectFromMeta :: "string \<Rightarrow> page_type_result option" where
  "detectFromMeta html =
     (let ogTypeMatch = or_else (re_match True og_type_first html) (re_match True og_type_second html);
          ogType = map_option (\<lambda>m. toLowerCase (group m 1)) ogTypeMatch
      in if ogType = Some ''article'' \<or> ogType = Some ''blog''
         then Some \<lparr>result_pageType = Article, result_confidence = High, result_source = MetaTag\<rparr>
         else if ogType = Some ''product'' \<or> ogType = Some ''product.item''
         then Some \<lparr>result_pageType = Product, result_confidence = High, result_source = MetaTag\<rparr>
         else if re_test True published_time_meta html
         then Some \<lparr>result_pageType = Article, result_confidence = High, result_source = MetaTag\<rparr>
         else None)"

text \<open>The regular expressions of \<^verbatim>\<open>detectFromContent\<close>:
  \<^verbatim>\<open>/<h[23][^>]*>[^<]*\?[^<]*<\/h[23]>/gi\<close>, \<^verbatim>\<open>/\$[\d,]+(?:\.\d{2})?/g\<close>,
  \<^verbatim>\<open>/(?:USD|EUR|GBP)\s*[\d,]+/gi\<close>, \<^verbatim>\<open>/<ol[^>]*>[\s\S]*?<\/ol>/gi\<close>,
  \<^verbatim>\<open>/step\s+\d|how to|instructions/i\<close>, \<^verbatim>\<open>/<pre[^>]*>[\s\S]*?<\/pre>/gi\<close> and
  \<^verbatim>\<open>/<code[^>]*>[\s\S]*?<\/code>/gi\<close>.\<close>

definition question_heading :: re where
  "question_heading =
     seq [word ''<h'', Cls False [CChar CHR ''2'', CChar CHR ''3''], not_gt_star, Lit CHR ''>'',
          Star True (Cls True [CChar CHR ''<'']), Lit CHR ''?'', Star True (Cls True [CChar CHR ''<'']),
          word ''</h'', Cls False [CChar CHR ''2'', CChar CHR ''3''], Lit CHR ''>'']"

definition dollar_price :: re where
  "dollar_price =
     seq [Lit CHR ''$'', Plus True (Cls False [CDigit, CChar CHR '','']),
          Opt True (seq [Lit CHR ''.'', Cls False [CDigit], Cls False [CDigit]])]"

definition currency_price :: re where
  "currency_price =
     seq [Alt (word ''USD'') (Alt (word ''EUR'') (word ''GBP'')), Star True (Cls False [CSpace]),
          Plus True (Cls False [CDigit, CChar CHR '',''])]"

definition element :: "string \<Rightarrow> re" where
  "element tag = seq [word (''<'' @ tag), not_gt_star, Lit CHR ''>'', any_lazy, word (''</'' @ tag @ ''>'')]"

definition stepKeywords :: re where
  "stepKeywords =
     Alt (seq [word ''step'', Plus True (Cls False [CSpace]), Cls False [CDigit]])
       (Alt (word ''how to'') (word ''instructions''))"

text \<open>\<^verbatim>\<open>xs && xs.length >= n\<close> for the result of a global match.\<close>

definition at_least :: "string list option \<Rightarrow> nat \<Rightarrow> bool" where
  "at_least xs n = (case xs of None \<Rightarrow> False | Some l \<Rightarrow> n \<le> length l)"

definition detectFromContent :: "string \<Rightarrow> page_type_result option" where
  "detectFromContent html =
     (let questionHeadings = match_global True question_heading html;
          priceMatches = or_else (match_global False dollar_price html)
                           (match_global True currency_price html);
          orderedLists = match_global True (element ''ol'') html;
          codeBlocks = or_else (match_global True (element ''pre'') html)
                         (match_global True (element ''code'') html)
      in if at_least questionHeadings 3
         then Some \<lparr>result_pageType = Faq, result_confidence = Medium, result_source = ContentHeuristic\<rparr>
         else if at_least priceMatches 2
         then Some \<lparr>result_pageType = Pricing, result_confidence = Medium, result_source = ContentHeuristic\<rparr>
         else if at_least orderedLists 1 \<and> re_test True stepKeywords html
         then Some \<lparr>result_pageType = HowTo, result_confidence = Low, result_source = ContentHeuristic\<rparr>
         else if at_least codeBlocks 3
         then Some \<lparr>result_pageType = Docs, result_confidence = Low, result_source = ContentHeuristic\<rparr>
         else None)"

text \<open>\<^verbatim>\<open>matchingRule?.pageType\<close>\<close>

definition rule_pageType :: "geo_page_rule option \<Rightarrow> page_type option" where
  "rule_pageType matchingRule = (case matchingRule of None \<Rightarrow> None | Some rule \<Rightarrow> pageType rule)"

definition detectPageType :: "string \<Rightarrow> string \<Rightarrow> geo_page_rule list \<Rightarrow> exn + page_type_result" where
  "detectPageType path html geoRules =
     (case findMatchingRule path geoRules of
        Inl e \<Rightarrow> Inl e
      | Inr matchingRule \<Rightarrow>
          (case rule_pageType matchingRule of
             Some pt \<Rightarrow>
               Inr \<lparr>result_pageType = pt, result_confidence = High, result_source = GeoRule\<rparr>
           | None \<Rightarrow>
               (case detectFromUrl path of
                  Some urlResult \<Rightarrow> Inr urlResult
                | None \<Rightarrow>
                    (case detectFromMeta html of
                       Some metaResult \<Rightarrow> Inr metaResult
                     | None \<Rightarrow>
                         (case detectFromContent html of
                            Some contentResult \<Rightarrow> Inr contentResult
                          | None \<Rightarrow>
                              Inr \<lparr>result_pageType = Generic, result_confidence = Low,
                                   result_source = Default\<rparr>)))))"

text \<open>Example input: a page whose only signal is an \<^verbatim>\<open>og:type\<close> meta tag.\<close>

definition product_meta_html :: string where
  "product_meta_html = ''<meta property='' @ [CHR 0x22] @ ''og:type'' @ [CHR 0x22] @
     '' content='' @ [CHR 0x22] @ ''Product'' @ [CHR 0x22] @ ''>''"

section \<open>HTML extraction and the summary generator (geo/html-utils.ts, geo/summary-generator.ts)\<close>

text \<open>\<^verbatim>\<open>/<meta[^>]*ATTR=["']VALUE["'][^>]*content=["']([\s\S]*?)["']/i\<close> and the same with
  \<^verbatim>\<open>content\<close> first.\<close>

definition meta_attr_first :: "string \<Rightarrow> string \<Rightarrow> re" where
  "meta_attr_first attr v =
     seq [word ''<meta'', not_gt_star, word (attr @ ''=''), quote, word v, quote,
          not_gt_star, word ''content='', quote, Grp 1 any_lazy, quote]"

definition meta_content_first :: "string \<Rightarrow> string \<Rightarrow> re" where
  "meta_content_first attr v =
     seq [word ''<meta'', not_gt_star, word ''content='', quote, Grp 1 any_lazy, quote,
          not_gt_star, word (attr @ ''=''), quote, word v, quote]"

definition meta_match :: "string \<Rightarrow> string \<Rightarrow> string \<Rightarrow> rmatch option" where
  "meta_match attr v html =
     or_else (re_match True (meta_attr_first attr v) html) (re_match True (meta_content_first attr v) html)"

definition decodeHtmlEntities :: "string \<Rightarrow> string" where
  "decodeHtmlEntities s =
     replaceAll ''&#x2F;'' ''/''
       (replaceAll ''&#x27;'' [CHR 0x27]
         (replaceAll ''&apos;'' [CHR 0x27]
           (replaceAll ''&#39;'' [CHR 0x27]
             (replaceAll ''&quot;'' [CHR 0x22]
               (replaceAll ''&gt;'' ''>''
                 (replaceAll ''&lt;'' ''<''
                   (replaceAll ''&amp;'' ''&'' s)))))))"

definition extractMetaDescription :: "string \<Rightarrow> string option" where
  "extractMetaDescription html =
     map_option (\<lambda>m. decodeHtmlEntities (trim (group m 1))) (meta_match ''name'' ''description'' html)"

definition extractOgDescription :: "string \<Rightarrow> string option" where
  "extractOgDescription html =
     map_option (\<lambda>m. decodeHtmlEntities (trim (group m 1))) (meta_match ''property'' ''og:description'' html)"

text \<open>\<^verbatim>\<open>stripHtml\<close>: the five replacements and the final \<^verbatim>\<open>trim\<close>.\<close>

definition stripHtml :: "string \<Rightarrow> string" where
  "stripHtml html =
     trim
       (re_replace_all False (Plus True (Cls False [CSpace])) (\<lambda>m k. '' '')
         (replaceAll ''&nbsp;'' '' ''
           (re_replace_all False (seq [Lit CHR ''<'', Plus True (Cls True [CChar CHR ''>'']), Lit CHR ''>''])
              (\<lambda>m k. [])
             (re_replace_all True (element ''style'') (\<lambda>m k. [])
               (re_replace_all True (element ''script'') (\<lambda>m k. []) html)))))"

text \<open>\<^verbatim>\<open>/<p[^>]*>([\s\S]*?)<\/p>/gi\<close>\<close>

definition paragraph_re :: re where
  "paragraph_re = seq [word ''<p'', not_gt_star, Lit CHR ''>'', Grp 1 any_lazy, word ''</p>'']"

text \<open>The loop of \<^verbatim>\<open>extractFirstParagraph\<close> over the paragraphs.\<close>

fun first_long_paragraph :: "string list \<Rightarrow> string option" where
  "first_long_paragraph [] = None"
| "first_long_paragraph (p # ps) =
     (let contents = trim (stripHtml p)
      in if 50 \<le> length contents then Some (take 300 contents) else first_long_paragraph ps)"

definition extractFirstParagraph :: "string \<Rightarrow> string option" where
  "extractFirstParagraph html =
     (case match_global True paragraph_re html of
        None \<Rightarrow> None
      | Some paragraphs \<Rightarrow> first_long_paragraph paragraphs)"

datatype summary_source = MetaDescription | OgDescription | FirstParagraph | Custom

text \<open>\<^verbatim>\<open>ExtractedSummary\<close>\<close>

record extracted_summary =
  summary_text :: string
  summary_source :: summary_source

text \<open>\<^verbatim>\<open>matchingRule?.summary\<close>\<close>

definition rule_summary :: "geo_page_rule option \<Rightarrow> string option" where
  "rule_summary matchingRule = (case matchingRule of None \<Rightarrow> None | Some rule \<Rightarrow> summary rule)"

text \<open>The condition \<^verbatim>\<open>v && test(v)\<close> on a string that may be missing: JavaScript takes a
  missing value and the empty string for false, so \<open>v\<close> passes only when it is a
  non-empty string that meets the test.\<close>

definition passes :: "string option \<Rightarrow> (string \<Rightarrow> bool) \<Rightarrow> string option" where
  "passes v test = (case v of None \<Rightarrow> None | Some s \<Rightarrow> if s \<noteq> [] \<and> test s then Some s else None)"

definition extractSummary :: "string \<Rightarrow> geo_page_rule option \<Rightarrow> extracted_summary option" where
  "extractSummary html matchingRule =
     (case passes (rule_summary matchingRule) (\<lambda>s. True) of
        Some custom \<Rightarrow> Some \<lparr>summary_text = custom, summary_source = Custom\<rparr>
      | None \<Rightarrow>
          (case passes (extractMetaDescription html) (\<lambda>metaDesc. 30 \<le> length metaDesc) of
             Some metaDesc \<Rightarrow> Some \<lparr>summary_text = metaDesc, summary_source = MetaDescription\<rparr>
           | None \<Rightarrow>
               (case passes (extractOgDescription html) (\<lambda>ogDesc. 30 \<le> length ogDesc) of
                  Some ogDesc \<Rightarrow> Some \<lparr>summary_text = ogDesc, summary_source = OgDescription\<rparr>
                | None \<Rightarrow>
                    (case passes (extractFirstParagraph html) (\<lambda>s. True) of
                       Some firstParagraph \<Rightarrow>
                         Some \<lparr>summary_text = firstParagraph, summary_source = FirstParagraph\<rparr>
                     | None \<Rightarrow> None))))"

text \<open>Example input: a rule whose summary is the empty string.\<close>

definition empty_summary_rule :: geo_page_rule where
  "empty_summary_rule =
     \<lparr>urlPattern = ''/page'', pageType = None, schemaTypes = None, summary = Some [],
      customJsonLd = None, disabled = None\<rparr>"

section \<open>Schema types and the text branch of the GEO engine (geo/schema-generator.ts, geo/index.ts)\<close>

text \<open>The string a \<^verbatim>\<open>PageType\<close> is.\<close>

fun page_type_str :: "page_type \<Rightarrow> string" where
  "page_type_str Product = ''product''"
| "page_type_str Article = ''article''"
| "page_type_str Docs = ''docs''"
| "page_type_str Faq = ''faq''"
| "page_type_str HowTo = ''how-to''"
| "page_type_str Pricing = ''pricing''"
| "page_type_str Comparison = ''comparison''"
| "page_type_str Generic = ''generic''"

text \<open>The \<^verbatim>\<open>"@type"\<close> each generator of \<^verbatim>\<open>generateSchema\<close> writes.\<close>

fun default_schema_type :: "page_type \<Rightarrow> string" where
  "default_schema_type Product = ''Product''"
| "default_schema_type Article = ''Article''"
| "default_schema_type Docs = ''TechArticle''"
| "default_schema_type Faq = ''FAQPage''"
| "default_schema_type HowTo = ''HowTo''"
| "default_schema_type Pricing = ''WebPage''"
| "default_schema_type Comparison = ''WebPage''"
| "default_schema_type Generic = ''WebPage''"

definition rule_customJsonLd :: "geo_page_rule option \<Rightarrow> (string \<times> string) list" where
  "rule_customJsonLd matchingRule =
     (case matchingRule of
        None \<Rightarrow> []
      | Some rule \<Rightarrow> (case customJsonLd rule of None \<Rightarrow> [] | Some custom \<Rightarrow> custom))"

text \<open>\<^verbatim>\<open>generateSchema\<close>, for the properties that do not come from the page:
  \<^verbatim>\<open>"@context"\<close>, \<^verbatim>\<open>"@type"\<close> and \<^verbatim>\<open>url\<close>, then the spread of the rule's
  \<^verbatim>\<open>customJsonLd\<close>, which replaces a property it names. Every generator returns an
  object, so the result is never null.\<close>

definition generateSchema ::
  "page_type \<Rightarrow> string \<Rightarrow> geo_page_rule option \<Rightarrow> (string \<times> string) list option" where
  "generateSchema pt url_href matchingRule =
     Some (fold (\<lambda>e schema. set_own schema (fst e) (snd e)) (rule_customJsonLd matchingRule)
             [(''@context'', ''https://schema.org''), (''@type'', default_schema_type pt),
              (''url'', url_href)])"

text \<open>\<^verbatim>\<open>`${schema["@type"]}`\<close>\<close>

definition schema_type_text :: "(string \<times> string) list \<Rightarrow> string" where
  "schema_type_text schema = (case map_of schema ''@type'' of None \<Rightarrow> ''undefined'' | Some t \<Rightarrow> t)"

text \<open>\<^verbatim>\<open>matchingRule?.disabled\<close> as a condition.\<close>

definition rule_disabled :: "geo_page_rule option \<Rightarrow> bool" where
  "rule_disabled matchingRule =
     (case matchingRule of None \<Rightarrow> False | Some rule \<Rightarrow> disabled rule = Some True)"

text \<open>The lines \<^verbatim>\<open>applyTextGeo\<close> pushes to \<^verbatim>\<open>frontmatterLines\<close>, in order.\<close>

definition frontmatterLines ::
  "geo_section \<Rightarrow> string \<Rightarrow> geo_page_rule option \<Rightarrow> page_type \<Rightarrow> string list" where
  "frontmatterLines config url_href matchingRule pt =
     (if injectSummary config
      then (case passes (rule_summary matchingRule) (\<lambda>s. True) of
              None \<Rightarrow> []
            | Some s \<Rightarrow> [''botmon:summary: '' @ [CHR 0x22] @ s @ [CHR 0x22]])
      else []) @
     [''botmon:page_type: '' @ page_type_str pt] @
     (if injectJsonLd config
      then (case generateSchema pt url_href matchingRule of
              None \<Rightarrow> []
            | Some schema \<Rightarrow> [''botmon:schema: '' @ schema_type_text schema])
      else [])"

text \<open>
  \<^verbatim>\<open>applyTextGeo\<close>. It reads the body of the response first, so whatever happens next
  the response it was given is left with its body read; the second component of the
  result is that response afterwards. The two results with \<^verbatim>\<open>modified: false\<close> name no
  page type.
\<close>

definition applyTextGeo ::
  "response \<Rightarrow> response_context \<Rightarrow> geo_section \<Rightarrow> (exn + geo_result) \<times> response" where
  "applyTextGeo resp ctx config =
     (let (read, origin) = response_text resp
      in case read of
           Inl e \<Rightarrow> (Inl e, origin)
         | Inr contents \<Rightarrow>
             (case findMatchingRule (pathname ctx) (rules config) of
                Inl e \<Rightarrow> (Inl e, origin)
              | Inr matchingRule \<Rightarrow>
                  if rule_disabled matchingRule
                  then (case new_Response contents (status resp) (headers resp) of
                          Inl e \<Rightarrow> (Inl e, origin)
                        | Inr r \<Rightarrow>
                            (Inr \<lparr>modified = False, geo_response = r, geo_pageType = None\<rparr>, origin))
                  else
                    (case detectPageType (pathname ctx) [] (rules config) of
                       Inl e \<Rightarrow> (Inl e, origin)
                     | Inr pageTypeResult \<Rightarrow>
                         (let pt = result_pageType pageTypeResult;
                              frontmatter_lines = frontmatterLines config (href ctx) matchingRule pt
                          in if length frontmatter_lines = 0
                             then (Inr \<lparr>modified = False, geo_response = origin, geo_pageType = None\<rparr>,
                                   origin)
                             else
                               (case new_Response
                                       (''---'' @ [CHR 0x0A] @ join [CHR 0x0A] frontmatter_lines @
                                        [CHR 0x0A] @ ''---'' @ [CHR 0x0A, CHR 0x0A] @ contents)
                                       (status resp)
                                       (headers_set ''X-BotMon-PageType'' (page_type_str pt)
                                          (headers_set ''X-BotMon-GEO'' ''applied'' (headers resp))) of
                                  Inl e \<Rightarrow> (Inl e, origin)
                                | Inr r \<Rightarrow>
                                    (Inr \<lparr>modified = True, geo_response = r, geo_pageType = Some pt\<rparr>,
                                     origin))))))"

text \<open>\<^verbatim>\<open>applyGeoOptimization\<close>: the branch is chosen by the content type. The HTML branch
  is a parameter.\<close>

definition applyGeoOptimization ::
  "(response \<Rightarrow> response_context \<Rightarrow> geo_section \<Rightarrow> (exn + geo_result) \<times> response) \<Rightarrow>
   response \<Rightarrow> response_context \<Rightarrow> geo_section \<Rightarrow> (exn + geo_result) \<times> response" where
  "applyGeoOptimization applyHtmlGeo resp ctx config =
     (let contentType = (case headers_get (headers resp) ''Content-Type'' of None \<Rightarrow> [] | Some v \<Rightarrow> v)
      in if js_includes contentType ''text/html'' then applyHtmlGeo resp ctx config
         else if js_includes contentType ''text/plain'' \<or> js_includes contentType ''text/markdown''
         then applyTextGeo resp ctx config
         else (Inr \<lparr>modified = False, geo_response = resp, geo_pageType = None\<rparr>, resp))"

text \<open>Examples: a markdown page under \<^verbatim>\<open>/docs\<close> with both injections switched off, and
  the same page answered with \<^verbatim>\<open>304 Not Modified\<close>.\<close>

definition markdown_response :: response where
  "markdown_response =
     \<lparr>status = 200, headers = [(''content-type'', ''text/markdown'')], body = Some ''# Intro'',
      bodyUsed = False\<rparr>"

definition not_modified_response :: response where
  "not_modified_response =
     \<lparr>status = 304, headers = [(''content-type'', ''text/markdown'')], body = None, bodyUsed = False\<rparr>"

definition docs_request :: response_context where
  "docs_request =
     \<lparr>href = ''https://example.com/docs/intro'', pathname = ''/docs/intro'',
      ctx_response = markdown_response, isAiBot = True, ctx_pageType = None\<rparr>"

definition bare_geo :: geo_section where
  "bare_geo =
     \<lparr>geo_enabled = True, injectJsonLd = False, injectSummary = False, cfg_enrichHeadings = False,
      rules = [local_docs_rule]\<rparr>"
section \<open>The pipeline orchestrator (middleware/pipeline.ts)\<close>

text \<open>\<^verbatim>\<open>PipelineStageResult\<close>.\<close>

record stage_result =
  handled :: bool
  sr_response :: "response option"

text \<open>
  The handlers of the three managed files and the HTML branch of the GEO engine are
  parameters: the orchestrator is modelled for every behaviour they can have. A handler
  returns or throws, and a handler that is given the context can first read the body of
  the context's response; so each of these yields its outcome together with the state
  of that response after the call. \<^verbatim>\<open>handleWellKnown\<close> is not given the context. \<open>'f\<close> is
  the type of the \<^verbatim>\<open>originFetch\<close> callback, which only the handlers call.
\<close>

record 'f handlers =
  handleRobotsTxt :: "response_context \<Rightarrow> file_section \<Rightarrow> 'f \<Rightarrow> (exn + response) \<times> response"
  handleSitemap :: "response_context \<Rightarrow> file_section \<Rightarrow> 'f \<Rightarrow> (exn + response) \<times> response"
  handleWellKnown :: "string \<Rightarrow> file_lookup \<Rightarrow> exn + response"
  applyHtmlGeo :: "response \<Rightarrow> response_context \<Rightarrow> geo_section \<Rightarrow> (exn + geo_result) \<times> response"

text \<open>\<^verbatim>\<open>/^\/sitemap(-[\w-]+)?\.xml$/\<close>\<close>

definition sitemapPattern :: re where
  "sitemapPattern =
     seq [Bol, word ''/sitemap'',
          Opt True (Grp 1 (Seq (Lit CHR ''-'') (Plus True (Cls False [CWord, CChar CHR ''-''])))),
          word ''.xml'', Eol]"

text \<open>\<^verbatim>\<open>s.replace(t, r)\<close> with a literal \<open>t\<close>: the first occurrence only.\<close>

fun replaceFirst :: "string \<Rightarrow> string \<Rightarrow> string \<Rightarrow> string" where
  "replaceFirst t r [] = (if t = [] then r else [])"
| "replaceFirst t r (c # cs) =
     (if prefix t (c # cs) then r @ drop (length t) (c # cs) else c # replaceFirst t r cs)"

text \<open>A pipeline stage: its name and its \<^verbatim>\<open>run\<close> function, which yields the stage
  result or the error thrown, and the state of the context's response afterwards.\<close>

record 'f pipeline_stage =
  name :: string
  run :: "response_context \<Rightarrow> resolved_config \<Rightarrow> 'f \<Rightarrow> (exn + stage_result) \<times> response"

definition not_handled :: "response_context \<Rightarrow> (exn + stage_result) \<times> response" where
  "not_handled ctx = (Inr \<lparr>handled = False, sr_response = None\<rparr>, ctx_response ctx)"

definition robots_stage :: "'f handlers \<Rightarrow> 'f pipeline_stage" where
  "robots_stage hs =
     \<lparr>name = ''robots-txt'',
      run = (\<lambda>ctx cfg fetchOrigin.
        if \<not> enabled (robotsTxt cfg) \<or> mode (robotsTxt cfg) = Disabled
        then not_handled ctx
        else if pathname ctx \<noteq> ''/robots.txt''
        then not_handled ctx
        else (let (outcome, origin) = handleRobotsTxt hs ctx (robotsTxt cfg) fetchOrigin
              in case outcome of
                   Inl e \<Rightarrow> (Inl e, origin)
                 | Inr r \<Rightarrow> (Inr \<lparr>handled = True, sr_response = Some r\<rparr>, origin)))\<rparr>"

definition sitemap_stage :: "'f handlers \<Rightarrow> 'f pipeline_stage" where
  "sitemap_stage hs =
     \<lparr>name = ''sitemap'',
      run = (\<lambda>ctx cfg fetchOrigin.
        if \<not> enabled (sitemap cfg) \<or> mode (sitemap cfg) = Disabled
        then not_handled ctx
        else if \<not> re_test False sitemapPattern (pathname ctx)
        then not_handled ctx
        else (let (outcome, origin) = handleSitemap hs ctx (sitemap cfg) fetchOrigin
              in case outcome of
                   Inl e \<Rightarrow> (Inl e, origin)
                 | Inr r \<Rightarrow> (Inr \<lparr>handled = True, sr_response = Some r\<rparr>, origin)))\<rparr>"

text \<open>The stage of the \<^verbatim>\<open>.well-known\<close> files. \<^verbatim>\<open>cfg.wellKnown.files[filename]\<close> also finds
  what the object inherits; such a value is truthy and its \<^verbatim>\<open>mode\<close> is not
  \<^verbatim>\<open>"disabled"\<close>, so the handler is called with it.\<close>

definition well_known_stage :: "'f handlers \<Rightarrow> 'f pipeline_stage" where
  "well_known_stage hs =
     \<lparr>name = ''well-known'',
      run = (\<lambda>ctx cfg fetchOrigin.
        if \<not> wk_enabled (wellKnown cfg)
        then not_handled ctx
        else if \<not> startsWith (pathname ctx) ''/.well-known/''
        then not_handled ctx
        else (let filename = replaceFirst ''/.well-known/'' [] (pathname ctx);
                  fileConfig = files_get (files (wellKnown cfg)) filename
              in if fileConfig = Missing \<or>
                    (case fileConfig of File v \<Rightarrow> wk_mode v = Disabled | _ \<Rightarrow> False)
                 then not_handled ctx
                 else (case handleWellKnown hs filename fileConfig of
                         Inl e \<Rightarrow> (Inl e, ctx_response ctx)
                       | Inr r \<Rightarrow> (Inr \<lparr>handled = True, sr_response = Some r\<rparr>, ctx_response ctx))))\<rparr>"

definition stages :: "'f handlers \<Rightarrow> 'f pipeline_stage list" where
  "stages hs = [robots_stage hs, sitemap_stage hs, well_known_stage hs]"

text \<open>What \<^verbatim>\<open>runPipeline\<close> returns, together with the two effects it has: the page type
  it stores in the context and the stage failures it logs with \<^verbatim>\<open>console.error\<close>.\<close>

record pipeline_result =
  pr_response :: response
  appliedRules :: "string list"
  pr_pageType :: "page_type option"
  logged :: "string list"

text \<open>The loop over the pre-origin stages. \<open>Inr (Inl r)\<close> is the \<^verbatim>\<open>return\<close> inside the
  loop; \<open>Inr (Inr (log, origin))\<close> is falling out of the loop, with the failures logged
  and the state of the context's response; \<open>Inl e\<close> would be an error that leaves the
  loop.\<close>

fun run_stages ::
  "'f pipeline_stage list \<Rightarrow> response_context \<Rightarrow> resolved_config \<Rightarrow> 'f \<Rightarrow> string list \<Rightarrow>
     exn + (pipeline_result + string list \<times> response)" where
  "run_stages [] ctx cfg fetchOrigin log = Inr (Inr (log, ctx_response ctx))"
| "run_stages (stage # rest) ctx cfg fetchOrigin log =
     (let (outcome, origin) = run stage ctx cfg fetchOrigin
      in case outcome of
           Inr result \<Rightarrow>
             (case sr_response result of
                Some r \<Rightarrow>
                  if handled result
                  then Inr (Inl \<lparr>pr_response = r, appliedRules = [name stage],
                                 pr_pageType = ctx_pageType ctx, logged = log\<rparr>)
                  else run_stages rest (ctx\<lparr>ctx_response := origin\<rparr>) cfg fetchOrigin log
              | None \<Rightarrow> run_stages rest (ctx\<lparr>ctx_response := origin\<rparr>) cfg fetchOrigin log)
         | Inl error \<Rightarrow>
             run_stages rest (ctx\<lparr>ctx_response := origin\<rparr>) cfg fetchOrigin (log @ [name stage]))"

text \<open>\<^verbatim>\<open>runPipeline\<close>. The variable \<^verbatim>\<open>response\<close> is the context's response, the very
  object the GEO engine is given: when the engine throws or reports no modification,
  what is returned is that object in the state the engine left it in.\<close>

definition runPipeline ::
  "'f handlers \<Rightarrow> response_context \<Rightarrow> resolved_config \<Rightarrow> 'f \<Rightarrow> exn + pipeline_result" where
  "runPipeline hs context config originFetch =
     (case run_stages (stages hs) context config originFetch [] of
        Inl e \<Rightarrow> Inl e
      | Inr (Inl r) \<Rightarrow> Inr r
      | Inr (Inr (log, response)) \<Rightarrow>
          if geo_enabled (geo config) \<and> isAiBot context
          then (let (outcome, origin) =
                      applyGeoOptimization (applyHtmlGeo hs) response
                        (context\<lparr>ctx_response := response\<rparr>) (geo config)
                in case outcome of
                     Inr geoResult \<Rightarrow>
                       if modified geoResult
                       then Inr \<lparr>pr_response = geo_response geoResult, appliedRules = [''geo''],
                                  pr_pageType = geo_pageType geoResult, logged = log\<rparr>
                       else Inr \<lparr>pr_response = origin, appliedRules = [],
                                  pr_pageType = ctx_pageType context, logged = log\<rparr>
                   | Inl error \<Rightarrow>
                       Inr \<lparr>pr_response = origin, appliedRules = [],
                            pr_pageType = ctx_pageType context, logged = log @ [''geo'']\<rparr>)
          else Inr \<lparr>pr_response = response, appliedRules = [],
                     pr_pageType = ctx_pageType context, logged = log\<rparr>)"

text \<open>
  Example inputs. Handlers that always throw without reading anything; a request for
  \<^verbatim>\<open>/robots.txt\<close> from an AI bot; a configuration with every section switched on. Then
  a run in which the GEO engine itself fails: an AI bot asks for a plain text page, the
  managed files are switched off, and the one GEO rule has the pattern \<^verbatim>\<open>?a\<close>, which
  \<^verbatim>\<open>globToRegex\<close> cannot compile.
\<close>

definition throwing_handlers :: "unit handlers" where
  "throwing_handlers =
     \<lparr>handleRobotsTxt = (\<lambda>c s g. (Inl (Exn ''robots''), ctx_response c)),
      handleSitemap = (\<lambda>c s g. (Inl (Exn ''sitemap''), ctx_response c)),
      handleWellKnown = (\<lambda>n w. Inl (Exn ''well-known'')),
      applyHtmlGeo = (\<lambda>r c g. (Inl (Exn ''geo''), r))\<rparr>"

definition origin_response :: response where
  "origin_response =
     \<lparr>status = 200, headers = [(''Content-Type'', ''text/plain'')], body = Some ''origin body'',
      bodyUsed = False\<rparr>"

definition robots_request :: response_context where
  "robots_request =
     \<lparr>href = ''https://example.com/robots.txt'', pathname = ''/robots.txt'',
      ctx_response = origin_response, isAiBot = True, ctx_pageType = None\<rparr>"

definition all_enabled :: resolved_config where
  "all_enabled =
     \<lparr>robotsTxt = \<lparr>enabled = True, mode = Replace, content = Some ''User-agent: *''\<rparr>,
      sitemap = \<lparr>enabled = True, mode = Merge, content = None\<rparr>,
      wellKnown = \<lparr>wk_enabled = True,
                   files = \<lparr>own_files = [(''llms.txt'', \<lparr>wk_mode = Replace, wk_content = Some ''LLM data''\<rparr>)],
                            files_proto = None\<rparr>\<rparr>,
      geo = \<lparr>geo_enabled = True, injectJsonLd = True, injectSummary = True,
             cfg_enrichHeadings = True, rules = []\<rparr>\<rparr>"

definition page_request :: response_context where
  "page_request =
     \<lparr>href = ''https://example.com/page'', pathname = ''/page'',
      ctx_response = origin_response, isAiBot = True, ctx_pageType = None\<rparr>"

definition question_mark_rule :: geo_page_rule where
  "question_mark_rule =
     \<lparr>urlPattern = ''?a'', pageType = None, schemaTypes = None, summary = None,
      customJsonLd = None, disabled = None\<rparr>"

definition geo_only :: resolved_config where
  "geo_only =
     \<lparr>robotsTxt = \<lparr>enabled = False, mode = Append, content = None\<rparr>,
      sitemap = \<lparr>enabled = False, mode = Merge, content = None\<rparr>,
      wellKnown = \<lparr>wk_enabled = False, files = empty_files\<rparr>,
      geo = \<lparr>geo_enabled = True, injectJsonLd = True, injectSummary = True,
             cfg_enrichHeadings = True, rules = [question_mark_rule]\<rparr>\<rparr>"

definition well_known_request :: "string \<Rightarrow> response_context" where
  "well_known_request filename =
     \<lparr>href = ''https://example.com/.well-known/'' @ filename,
      pathname = ''/.well-known/'' @ filename,
      ctx_response = origin_response, isAiBot = False, ctx_pageType = None\<rparr>"
section \<open>The heading enricher (geo/heading-enricher.ts)\<close>

text \<open>\<^verbatim>\<open>String(n)\<close> for a natural number: its decimal digits.\<close>

function show_nat :: "nat \<Rightarrow> string" where
  "show_nat n = (if n < 10 then [char_of (48 + n)] else show_nat (n div 10) @ [char_of (48 + n mod 10)])"
  by pat_completeness auto
termination
  by (relation "measure (\<lambda>n. n)") auto

declare show_nat.simps [simp del]

text \<open>\<^verbatim>\<open>/<h([1-6])([^>]*)>([\s\S]*?)<\/h\1>/gi\<close>\<close>

definition heading_re :: re where
  "heading_re =
     seq [Lit CHR ''<'', Lit CHR ''h'', Grp 1 (Cls False [CRange CHR ''1'' CHR ''6'']),
          Grp 2 not_gt_star, Lit CHR ''>'', Grp 3 any_lazy,
          Lit CHR ''<'', Lit CHR ''/'', Lit CHR ''h'', Bref 1, Lit CHR ''>'']"

text \<open>The attributes the callback adds to an opening tag.\<close>

definition section_marker :: string where
  "section_marker = ''data-botmon-section''"

definition enriched_attrs :: "page_type \<Rightarrow> nat \<Rightarrow> string \<Rightarrow> string" where
  "enriched_attrs pt sectionIndex level =
     '' data-botmon-section='' @ [CHR 0x22] @ show_nat sectionIndex @ [CHR 0x22] @
     '' data-botmon-level='' @ [CHR 0x22] @ level @ [CHR 0x22] @
     '' data-botmon-page-type='' @ [CHR 0x22] @ page_type_str pt @ [CHR 0x22]"

text \<open>The callback of \<^verbatim>\<open>replace\<close>. It increments \<^verbatim>\<open>sectionIndex\<close> on every call, so at
  the \<open>k\<close>-th match the index is \<open>k\<close>.\<close>

definition enrich_heading :: "page_type \<Rightarrow> rmatch \<Rightarrow> nat \<Rightarrow> string" where
  "enrich_heading pt m sectionIndex =
     (let level = group m 1; attrs = group m 2; contents = group m 3
      in if js_includes attrs section_marker then m_text m
         else ''<h'' @ level @ attrs @ enriched_attrs pt sectionIndex level @ ''>'' @ contents @
              ''</h'' @ level @ ''>'')"

definition enrichHeadings :: "string \<Rightarrow> page_type \<Rightarrow> string" where
  "enrichHeadings html pt = re_replace_all True heading_re (enrich_heading pt) html"

text \<open>Example: two headings, the second already enriched.\<close>

definition two_headings :: string where
  "two_headings = ''<H2 id=a>One</h2><h1 data-botmon-section>x</h1>''"

section \<open>The heading expression, read as a scanner\<close>

text \<open>
  What \<^verbatim>\<open>heading_re\<close> matches at the start of a string, written directly: \<^verbatim>\<open><h\<close> or
  \<^verbatim>\<open><H\<close>, a level, the attributes up to the first \<^verbatim>\<open>>\<close>, and the contents up to
  the first closing tag of that level. The proofs show that the regular expression does
  exactly this, and then reason on the scanner.
\<close>

definition is_h :: "char \<Rightarrow> bool" where
  "is_h c = (c = CHR ''h'' \<or> c = CHR ''H'')"

definition is_level :: "char \<Rightarrow> bool" where
  "is_level c = (c \<in> set ''123456'')"

fun is_closer :: "char \<Rightarrow> string \<Rightarrow> bool" where
  "is_closer d (a # b # h # e # g # r) =
     (a = CHR ''<'' \<and> b = CHR ''/'' \<and> is_h h \<and> e = d \<and> g = CHR ''>'')"
| "is_closer d s = False"

text \<open>The contents before the first closing tag, and the text after that tag.\<close>

fun find_closer :: "char \<Rightarrow> string \<Rightarrow> (string \<times> string) option" where
  "find_closer d [] = None"
| "find_closer d (c # cs) =
     (if is_closer d (c # cs) then Some ([], drop 5 (c # cs))
      else map_option (\<lambda>(x, r). (c # x, r)) (find_closer d cs))"

text \<open>The level, the attributes, the contents and the text after the heading.\<close>

definition parse_heading :: "string \<Rightarrow> (char \<times> string \<times> string \<times> string) option" where
  "parse_heading s =
     (case s of
        a # h # d # after_level \<Rightarrow>
          if a = CHR ''<'' \<and> is_h h \<and> is_level d
          then (case dropWhile (\<lambda>c. c \<noteq> CHR ''>'') after_level of
                  [] \<Rightarrow> None
                | g # after_tag \<Rightarrow>
                    (case find_closer d after_tag of
                       None \<Rightarrow> None
                     | Some (contents, after_heading) \<Rightarrow>
                         Some (d, takeWhile (\<lambda>c. c \<noteq> CHR ''>'') after_level, contents,
                               after_heading)))
          else None
      | _ \<Rightarrow> None)"

lemma find_closer_parts:
  "find_closer d t = Some (x, r) \<Longrightarrow>
   \<exists>h. is_h h \<and> t = x @ CHR ''<'' # CHR ''/'' # h # d # CHR ''>'' # r"
proof (induction t arbitrary: x)
  case Nil
  then show ?case by simp
next
  case (Cons c cs)
  show ?case
  proof (cases "is_closer d (c # cs)")
    case True
    then obtain h r' where "c # cs = CHR ''<'' # CHR ''/'' # h # d # CHR ''>'' # r'" "is_h h"
      by (auto elim: is_closer.elims(2))
    with True Cons.prems show ?thesis by auto
  next
    case False
    with Cons.prems obtain x' where x': "find_closer d cs = Some (x', r)" and x: "x = c # x'"
      by auto
    from Cons.IH [OF x'] x show ?thesis by auto
  qed
qed

lemma parse_heading_parts:
  "parse_heading s = Some (d, attrs, contents, rest) \<Longrightarrow>
   \<exists>h h'. is_h h \<and> is_h h' \<and> is_level d \<and> CHR ''>'' \<notin> set attrs \<and>
     s = CHR ''<'' # h # d # attrs @ CHR ''>'' # contents @
         CHR ''<'' # CHR ''/'' # h' # d # CHR ''>'' # rest"
proof -
  assume p: "parse_heading s = Some (d, attrs, contents, rest)"
  then obtain a h e after_level where s: "s = a # h # e # after_level"
    by (auto simp: parse_heading_def split: list.splits)
  from p s have hd: "a = CHR ''<''" "is_h h" "is_level e"
    by (auto simp: parse_heading_def split: if_splits)
  from p s hd obtain g after_tag where
    dw: "dropWhile (\<lambda>c. c \<noteq> CHR ''>'') after_level = g # after_tag"
    by (auto simp: parse_heading_def split: list.splits)
  from p s hd dw have fc: "find_closer e after_tag = Some (contents, rest)"
    and d: "d = e" and attrs: "attrs = takeWhile (\<lambda>c. c \<noteq> CHR ''>'') after_level"
    by (auto simp: parse_heading_def split: option.splits)
  from dw have g: "g = CHR ''>''"
    using hd_dropWhile [of "\<lambda>c. c \<noteq> CHR ''>''" after_level] by auto
  have "after_level = attrs @ g # after_tag"
    using takeWhile_dropWhile_id [of "\<lambda>c. c \<noteq> CHR ''>''" after_level] dw attrs by simp
  moreover have "CHR ''>'' \<notin> set attrs"
    using attrs set_takeWhileD [of "CHR ''>''" "\<lambda>c. c \<noteq> CHR ''>''" after_level] by auto
  moreover obtain h' where "is_h h'"
    "after_tag = contents @ CHR ''<'' # CHR ''/'' # h' # e # CHR ''>'' # rest"
    using find_closer_parts [OF fc] by auto
  ultimately show ?thesis using s hd d g by auto
qed

lemma parse_heading_shorter:
  "parse_heading s = Some (d, attrs, contents, rest) \<Longrightarrow> length rest < length s"
  using parse_heading_parts [of s d attrs contents rest] by auto

text \<open>The replacement of one heading, and the whole pass: a character that starts no
  heading is copied, a heading is replaced and the pass goes on after it, with the
  index of the next heading.\<close>

definition heading_text :: "page_type \<Rightarrow> nat \<Rightarrow> string \<Rightarrow> char \<Rightarrow> string \<Rightarrow> string \<Rightarrow> string" where
  "heading_text pt k matched d attrs contents =
     (if js_includes attrs section_marker then matched
      else ''<h'' @ [d] @ attrs @ enriched_attrs pt k [d] @ ''>'' @ contents @ ''</h'' @ [d] @ ''>'')"

function enrich :: "page_type \<Rightarrow> nat \<Rightarrow> string \<Rightarrow> string" where
  "enrich pt k [] = []"
| "enrich pt k (c # cs) =
     (case parse_heading (c # cs) of
        None \<Rightarrow> c # enrich pt k cs
      | Some (d, attrs, contents, rest) \<Rightarrow>
          heading_text pt k (take (length (c # cs) - length rest) (c # cs)) d attrs contents @
          enrich pt (Suc k) rest)"
  by pat_completeness auto
termination
proof (relation "measure (\<lambda>(pt, k, s). length s)")
  show "wf (measure (\<lambda>(pt, k, s). length s))" by simp
next
  fix pt :: page_type and k :: nat and c cs
  show "((pt, k, cs), (pt, k, c # cs)) \<in> measure (\<lambda>(pt, k, s). length s)" by simp
next
  fix pt :: page_type and k :: nat and c cs x2 x1 y x1a ya x1b x2b
  assume "parse_heading (c # cs) = Some x2" "(x1, y) = x2" "(x1a, ya) = y" "(x1b, x2b) = ya"
  then have "parse_heading (c # cs) = Some (x1, x1a, x1b, x2b)" by simp
  then have "length x2b < length (c # cs)" by (rule parse_heading_shorter)
  then show "((pt, Suc k, x2b), (pt, k, c # cs)) \<in> measure (\<lambda>(pt, k, s). length s)" by simp
qed

declare enrich.simps [simp del]

text \<open>Example: a match whose attributes already hold the marker.\<close>

definition marked_match :: rmatch where
  "marked_match =
     \<lparr>m_start = 0, m_text = ''<h1 data-botmon-section>x</h1>'', m_rest = [],
      m_groups = [(3, ''x''), (2, '' data-botmon-section''), (1, ''1'')]\<rparr>"

text \<open>How a pass changes a text: a character is copied, an \<^verbatim>\<open>h\<close> may change case, and
  a space followed by text without \<^verbatim>\<open><\<close> and \<^verbatim>\<open>>\<close> may be put before a \<^verbatim>\<open>>\<close>.\<close>

inductive sim :: "string \<Rightarrow> string \<Rightarrow> bool" where
  sim_Nil: "sim [] []"
| sim_copy: "sim s s' \<Longrightarrow> sim (c # s) (c # s')"
| sim_h: "sim s s' \<Longrightarrow> is_h c \<Longrightarrow> is_h c' \<Longrightarrow> sim (c # s) (c' # s')"
| sim_ins: "sim s s' \<Longrightarrow> CHR ''<'' \<notin> set w \<Longrightarrow> CHR ''>'' \<notin> set w \<Longrightarrow>
            sim (CHR ''>'' # s) (CHR '' '' # w @ CHR ''>'' # s')"

section \<open>Proofs: the config merger\<close>

lemma map_of_set_own: "map_of (set_own al k v) = (map_of al)(k \<mapsto> v)"
  by (induction al k v rule: set_own.induct) auto

lemma keys_set_own:
  "map fst (set_own al k v) = (if k \<in> set (map fst al) then map fst al else map fst al @ [k])"
  by (induction al k v rule: set_own.induct) auto

lemma set_own_fresh: "k \<notin> set (map fst al) \<Longrightarrow> set_own al k v = al @ [(k, v)]"
  by (induction al k v rule: set_own.induct) auto

lemma Object_entries_ordinary:
  "list_all (\<lambda>n. array_index n = None) (map fst props) \<Longrightarrow> Object_entries props = props"
  by (simp add: Object_entries_def list_all_iff filter_empty_conv filter_id_conv)

lemma lookup_mode_own:
  "files_proto obj = None \<Longrightarrow> lookup_mode obj k = map_option wk_mode (map_of (own_files obj) k)"
  by (simp add: lookup_mode_def files_get_def split: option.splits)

lemma sdk_file_step_own:
  "fst e \<noteq> ''__proto__'' \<Longrightarrow>
   sdk_file_step e obj =
     obj\<lparr>own_files := set_own (own_files obj) (fst e) \<lparr>wk_mode = snd e, wk_content = None\<rparr>\<rparr>"
  by (simp add: sdk_file_step_def files_set_def)

lemma remote_file_step_own:
  "fst r \<noteq> ''__proto__'' \<Longrightarrow> files_proto obj = None \<Longrightarrow>
   remote_file_step r obj =
     obj\<lparr>own_files := set_own (own_files obj) (fst r)
            \<lparr>wk_mode = nullish (rf_mode (snd r))
                         (nullish (map_option wk_mode (map_of (own_files obj) (fst r))) Replace),
             wk_content = rf_content (snd r)\<rparr>\<rparr>"
  by (simp add: remote_file_step_def files_set_def lookup_mode_own)

lemma fold_sdk_file_step:
  "distinct (map fst es) \<Longrightarrow> ''__proto__'' \<notin> set (map fst es) \<Longrightarrow>
   set (map fst es) \<inter> set (map fst (own_files acc)) = {} \<Longrightarrow>
   fold sdk_file_step es acc =
     acc\<lparr>own_files := own_files acc @ map (\<lambda>e. (fst e, \<lparr>wk_mode = snd e, wk_content = None\<rparr>)) es\<rparr>"
proof (induction es arbitrary: acc)
  case Nil
  show ?case by simp
next
  case (Cons e es)
  have fresh: "fst e \<notin> set (map fst (own_files acc))" using Cons.prems(3) by auto
  have np: "fst e \<noteq> ''__proto__''" using Cons.prems(2) by auto
  have step: "sdk_file_step e acc =
                acc\<lparr>own_files := own_files acc @ [(fst e, \<lparr>wk_mode = snd e, wk_content = None\<rparr>)]\<rparr>"
    using fresh by (simp add: sdk_file_step_own [OF np] set_own_fresh)
  have "set (map fst es) \<inter> set (map fst (own_files (sdk_file_step e acc))) = {}"
    using Cons.prems by (auto simp: step)
  moreover have "distinct (map fst es)" "''__proto__'' \<notin> set (map fst es)"
    using Cons.prems by auto
  ultimately show ?case using Cons.IH [of "sdk_file_step e acc"] by (simp add: step)
qed

lemma proto_fold_remote:
  "''__proto__'' \<notin> set (map fst rs) \<Longrightarrow> files_proto acc = None \<Longrightarrow>
   files_proto (fold remote_file_step rs acc) = None"
proof (induction rs arbitrary: acc)
  case Nil
  then show ?case by simp
next
  case (Cons r rs)
  have np: "fst r \<noteq> ''__proto__''" using Cons.prems(1) by auto
  have "files_proto (remote_file_step r acc) = None"
    by (simp add: remote_file_step_own [OF np Cons.prems(2)] Cons.prems(2))
  then show ?case using Cons.IH [of "remote_file_step r acc"] Cons.prems(1) by simp
qed

lemma keys_fold_remote:
  "distinct (map fst rs) \<Longrightarrow> ''__proto__'' \<notin> set (map fst rs) \<Longrightarrow> files_proto acc = None \<Longrightarrow>
   map fst (own_files (fold remote_file_step rs acc)) =
     map fst (own_files acc) @ filter (\<lambda>n. n \<notin> set (map fst (own_files acc))) (map fst rs)"
proof (induction rs arbitrary: acc)
  case Nil
  show ?case by simp
next
  case (Cons r rs)
  let ?acc' = "remote_file_step r acc"
  have d: "distinct (map fst rs)" and nr: "fst r \<notin> set (map fst rs)" using Cons.prems by auto
  have np: "fst r \<noteq> ''__proto__''" and np': "''__proto__'' \<notin> set (map fst rs)"
    using Cons.prems(2) by auto
  have proto: "files_proto ?acc' = None"
    by (simp add: remote_file_step_own [OF np Cons.prems(3)] Cons.prems(3))
  have keys: "map fst (own_files ?acc') =
                (if fst r \<in> set (map fst (own_files acc)) then map fst (own_files acc)
                 else map fst (own_files acc) @ [fst r])"
    by (simp add: remote_file_step_own [OF np Cons.prems(3)] keys_set_own)
  have "filter (\<lambda>n. n \<notin> set (map fst (own_files ?acc'))) (map fst rs) =
        filter (\<lambda>n. n \<notin> set (map fst (own_files acc))) (map fst rs)"
  proof (rule filter_cong [OF refl])
    fix n assume "n \<in> set (map fst rs)"
    then have "n \<noteq> fst r" using nr by blast
    then show "(n \<notin> set (map fst (own_files ?acc'))) = (n \<notin> set (map fst (own_files acc)))"
      by (simp add: keys)
  qed
  then show ?case using Cons.IH [OF d np' proto] by (simp add: keys)
qed

lemma map_of_fold_remote:
  "distinct (map fst rs) \<Longrightarrow> ''__proto__'' \<notin> set (map fst rs) \<Longrightarrow> files_proto acc = None \<Longrightarrow>
   map_of (own_files (fold remote_file_step rs acc)) n =
     (case map_of rs n of
        None \<Rightarrow> map_of (own_files acc) n
      | Some rf \<Rightarrow>
          Some \<lparr>wk_mode = nullish (rf_mode rf)
                             (nullish (map_option wk_mode (map_of (own_files acc) n)) Replace),
                wk_content = rf_content rf\<rparr>)"
proof (induction rs arbitrary: acc)
  case Nil
  show ?case by simp
next
  case (Cons r rs)
  obtain k rf where r: "r = (k, rf)" by (cases r)
  let ?acc' = "remote_file_step r acc"
  have d: "distinct (map fst rs)" and nk: "k \<notin> set (map fst rs)" using Cons.prems r by auto
  have np: "fst r \<noteq> ''__proto__''" and np': "''__proto__'' \<notin> set (map fst rs)"
    using Cons.prems(2) by auto
  have proto: "files_proto ?acc' = None"
    by (simp add: remote_file_step_own [OF np Cons.prems(3)] Cons.prems(3))
  have none: "map_of rs k = None" using nk by (simp add: map_of_eq_None_iff)
  have step: "remote_file_step (k, rf) acc =
                acc\<lparr>own_files := set_own (own_files acc) k
                       \<lparr>wk_mode = nullish (rf_mode rf)
                                    (nullish (map_option wk_mode (map_of (own_files acc) k)) Replace),
                        wk_content = rf_content rf\<rparr>\<rparr>"
    using remote_file_step_own [of "(k, rf)" acc] np r Cons.prems(3) by simp
  show ?case
  proof (cases "n = k")
    case True
    then show ?thesis using Cons.IH [OF d np' proto] none r
      by (simp add: step map_of_set_own)
  next
    case False
    then show ?thesis using Cons.IH [OF d np' proto] r
      by (simp add: step map_of_set_own split: option.splits)
  qed
qed

lemma merge_sdk_rules_eq:
  "merge_sdk_rules bp sdk merged used =
     (merged @ map (\<lambda>s. case bp (urlPattern s) of Some d \<Rightarrow> d | None \<Rightarrow> s) sdk,
      used \<union> {urlPattern s | s. s \<in> set sdk \<and> bp (urlPattern s) \<noteq> None})"
  by (induction sdk arbitrary: merged used) (auto split: option.splits)

lemma find_append:
  "find P (xs @ ys) = (case find P xs of None \<Rightarrow> find P ys | Some x \<Rightarrow> Some x)"
  by (induction xs) auto

lemma dashboardByPattern_fold:
  "fold (\<lambda>rule m. m(urlPattern rule \<mapsto> rule)) ds m p =
     (case find (\<lambda>d. urlPattern d = p) (rev ds) of Some d \<Rightarrow> Some d | None \<Rightarrow> m p)"
  by (induction ds arbitrary: m) (auto simp: find_append split: option.splits)

lemma dashboardByPattern_find:
  "dashboardByPattern ds p = find (\<lambda>d. urlPattern d = p) (rev ds)"
  by (simp add: dashboardByPattern_def dashboardByPattern_fold split: option.splits)

lemma dashboardByPattern_defined:
  "d \<in> set ds \<Longrightarrow> dashboardByPattern ds (urlPattern d) \<noteq> None"
  by (auto simp: dashboardByPattern_find find_None_iff)

lemma mergeGeoRules_eq:
  "mergeGeoRules sdk ds =
     map (\<lambda>s. case find (\<lambda>d. urlPattern d = urlPattern s) (rev ds) of Some d \<Rightarrow> d | None \<Rightarrow> s) sdk @
     filter (\<lambda>d. urlPattern d \<notin> urlPattern ` set sdk) ds"
proof -
  have "filter (\<lambda>d. urlPattern d \<notin> {urlPattern s | s. s \<in> set sdk \<and> dashboardByPattern ds (urlPattern s) \<noteq> None}) ds
        = filter (\<lambda>d. urlPattern d \<notin> urlPattern ` set sdk) ds"
  proof (intro filter_cong refl)
    fix d assume "d \<in> set ds"
    then have "dashboardByPattern ds (urlPattern d) \<noteq> None" by (rule dashboardByPattern_defined)
    then show "(urlPattern d \<notin> {urlPattern s | s. s \<in> set sdk \<and> dashboardByPattern ds (urlPattern s) \<noteq> None})
               = (urlPattern d \<notin> urlPattern ` set sdk)"
      by (auto simp: image_iff)
  qed
  then show ?thesis
    by (simp add: mergeGeoRules_def merge_sdk_rules_eq dashboardByPattern_find)
qed

lemma map_of_sdk_files:
  "map_of (map (\<lambda>e. (fst e, \<lparr>wk_mode = snd e, wk_content = None\<rparr>)) es) n =
     map_option (\<lambda>m. \<lparr>wk_mode = m, wk_content = None\<rparr>) (map_of es n)"
  by (induction es) auto

lemma mergeWellKnown_files:
  assumes "sfiles = (case sdk_wellKnown sdk of None \<Rightarrow> [] | Some sw \<Rightarrow> sdk_files sw)"
      and "rfiles = (case remote_section remote rb_wellKnown of None \<Rightarrow> [] | Some rw \<Rightarrow> rwk_files rw)"
      and "distinct (map fst sfiles)"
      and "list_all (\<lambda>n. array_index n = None \<and> n \<noteq> ''__proto__'') (map fst sfiles @ map fst rfiles)"
  shows "files (mergeWellKnown sdk remote) =
           fold remote_file_step rfiles
             \<lparr>own_files = map (\<lambda>e. (fst e, \<lparr>wk_mode = snd e, wk_content = None\<rparr>)) sfiles,
              files_proto = None\<rparr>"
proof -
  have ord_s: "list_all (\<lambda>n. array_index n = None) (map fst sfiles)"
   and ord_r: "list_all (\<lambda>n. array_index n = None) (map fst rfiles)"
   and np: "''__proto__'' \<notin> set (map fst sfiles)"
    using assms(4) by (auto simp: list_all_iff)
  have base: "Object_entries (Object_entries sfiles) = sfiles"
    by (simp add: Object_entries_ordinary [OF ord_s])
  have sdk_part: "fold sdk_file_step sfiles empty_files =
          \<lparr>own_files = map (\<lambda>e. (fst e, \<lparr>wk_mode = snd e, wk_content = None\<rparr>)) sfiles,
           files_proto = None\<rparr>"
    using fold_sdk_file_step [OF assms(3) np, of empty_files] by (simp add: empty_files_def)
  have s: "(case sdk_wellKnown sdk of Some w \<Rightarrow> sdk_files w | None \<Rightarrow> []) = sfiles"
    using assms(1) by (simp split: option.splits)
  show ?thesis
  proof (cases "remote_section remote rb_wellKnown")
    case None
    then have "rfiles = []" using assms(2) by simp
    then show ?thesis using None by (simp add: mergeWellKnown_def Let_def s base sdk_part)
  next
    case (Some rw)
    then have r: "rwk_files rw = rfiles" using assms(2) by simp
    have "Object_entries (rwk_files rw) = rfiles"
      unfolding r by (rule Object_entries_ordinary [OF ord_r])
    then show ?thesis using Some by (simp add: mergeWellKnown_def Let_def s base sdk_part)
  qed
qed

text \<open>
  Claim C3, as the code has it. \<^verbatim>\<open>wellKnown.files\<close> is merged entry by entry, for file
  names that are neither array indices nor \<^verbatim>\<open>__proto__\<close>, whether or not the SDK
  configuration or the remote bundle has the section: the resulting object has its
  original prototype and lists the SDK's file names in their order and then the names
  only the remote bundle has, in its order; a file of both takes the remote mode, or the
  SDK's mode when the remote entry has none, and the remote content; a file of the SDK
  alone keeps its mode and has no content; a file of the bundle alone keeps its mode
  (\<^verbatim>\<open>replace\<close> when it has none) and its content. \<^verbatim>\<open>geo.rules\<close> is merged by
  \<^verbatim>\<open>urlPattern\<close>, but a rule is never merged field by field: an SDK rule whose pattern
  the dashboard also has is replaced as a whole by the dashboard's last rule with that
  pattern; the other SDK rules pass through unchanged, all in the SDK's order, and the
  dashboard rules whose pattern no SDK rule has follow in the dashboard's order.
\<close>

theorem mergeConfig_keyed_collections:
  assumes "sfiles = (case sdk_wellKnown sdk of None \<Rightarrow> [] | Some sw \<Rightarrow> sdk_files sw)"
      and "rfiles = (case remote_section remote rb_wellKnown of None \<Rightarrow> [] | Some rw \<Rightarrow> rwk_files rw)"
      and "distinct (map fst sfiles)" and "distinct (map fst rfiles)"
      and "list_all (\<lambda>n. array_index n = None \<and> n \<noteq> ''__proto__'') (map fst sfiles @ map fst rfiles)"
      and "sdkRules = (case sdk_geo sdk of None \<Rightarrow> [] | Some g \<Rightarrow> nullish (grc_rules g) [])"
      and "dashboardRules =
             (case remote_section remote rb_geo of None \<Rightarrow> [] | Some rg \<Rightarrow> nullish (rg_rules rg) [])"
      and "merged = files (wellKnown (mergeConfig sdk remote))"
  shows "files_proto merged = None \<and>
         map fst (Object_entries (own_files merged)) =
           map fst sfiles @ filter (\<lambda>n. n \<notin> set (map fst sfiles)) (map fst rfiles) \<and>
         (\<forall>n. map_of (Object_entries (own_files merged)) n =
            (case map_of sfiles n of
               Some m \<Rightarrow>
                 (case map_of rfiles n of
                    Some rf \<Rightarrow> Some \<lparr>wk_mode = nullish (rf_mode rf) m, wk_content = rf_content rf\<rparr>
                  | None \<Rightarrow> Some \<lparr>wk_mode = m, wk_content = None\<rparr>)
             | None \<Rightarrow>
                 (case map_of rfiles n of
                    Some rf \<Rightarrow> Some \<lparr>wk_mode = nullish (rf_mode rf) Replace, wk_content = rf_content rf\<rparr>
                  | None \<Rightarrow> None))) \<and>
         rules (geo (mergeConfig sdk remote)) =
           map (\<lambda>s. case find (\<lambda>d. urlPattern d = urlPattern s) (rev dashboardRules) of
                      Some d \<Rightarrow> d | None \<Rightarrow> s) sdkRules @
           filter (\<lambda>d. urlPattern d \<notin> urlPattern ` set sdkRules) dashboardRules"
proof -
  let ?base = "\<lparr>own_files = map (\<lambda>e. (fst e, \<lparr>wk_mode = snd e, wk_content = None\<rparr>)) sfiles,
               files_proto = None\<rparr>"
  have np: "''__proto__'' \<notin> set (map fst rfiles)"
   and ord: "\<forall>n \<in> set (map fst sfiles) \<union> set (map fst rfiles). array_index n = None"
    using assms(5) by (auto simp: list_all_iff)
  have merged: "merged = fold remote_file_step rfiles ?base"
    using mergeWellKnown_files [OF assms(1) assms(2) assms(3) assms(5)] assms(8)
    by (simp add: mergeConfig_def)
  have keys: "map fst (own_files merged) =
                map fst sfiles @ filter (\<lambda>n. n \<notin> set (map fst sfiles)) (map fst rfiles)"
    unfolding merged using keys_fold_remote [OF assms(4) np, of ?base] by (simp add: comp_def)
  have "list_all (\<lambda>n. array_index n = None) (map fst (own_files merged))"
    unfolding keys using ord by (auto simp: list_all_iff)
  then have entries: "Object_entries (own_files merged) = own_files merged"
    by (rule Object_entries_ordinary)
  have proto: "files_proto merged = None"
    unfolding merged by (rule proto_fold_remote [OF np]) simp
  have lookup: "map_of (own_files merged) n =
          (case map_of sfiles n of
             Some m \<Rightarrow>
               (case map_of rfiles n of
                  Some rf \<Rightarrow> Some \<lparr>wk_mode = nullish (rf_mode rf) m, wk_content = rf_content rf\<rparr>
                | None \<Rightarrow> Some \<lparr>wk_mode = m, wk_content = None\<rparr>)
           | None \<Rightarrow>
               (case map_of rfiles n of
                  Some rf \<Rightarrow> Some \<lparr>wk_mode = nullish (rf_mode rf) Replace, wk_content = rf_content rf\<rparr>
                | None \<Rightarrow> None))" for n
    unfolding merged using map_of_fold_remote [OF assms(4) np, of ?base n]
    by (simp add: map_of_sdk_files nullish_def split: option.splits)
  have base: "rules (case sdk_geo sdk of
                None \<Rightarrow> \<lparr>geo_enabled = geo_enabled (geo DEFAULTS),
                          injectJsonLd = injectJsonLd (geo DEFAULTS),
                          injectSummary = injectSummary (geo DEFAULTS),
                          cfg_enrichHeadings = cfg_enrichHeadings (geo DEFAULTS), rules = []\<rparr>
              | Some g \<Rightarrow> \<lparr>geo_enabled = grc_enabled g,
                            injectJsonLd = nullish (grc_injectJsonLd g) (injectJsonLd (geo DEFAULTS)),
                            injectSummary = nullish (grc_injectSummary g) (injectSummary (geo DEFAULTS)),
                            cfg_enrichHeadings =
                              nullish (grc_enrichHeadings g) (cfg_enrichHeadings (geo DEFAULTS)),
                            rules = nullish (grc_rules g) []\<rparr>) = sdkRules"
    using assms(6) by (cases "sdk_geo sdk") simp_all
  have none: "mergeGeoRules sdkRules [] = sdkRules"
    by (simp add: mergeGeoRules_eq)
  have "rules (geo (mergeConfig sdk remote)) = mergeGeoRules sdkRules dashboardRules"
    using assms(7) base none
    by (cases "remote_section remote rb_geo") (simp_all add: mergeConfig_def mergeGeo_def Let_def)
  then have geo: "rules (geo (mergeConfig sdk remote)) =
          map (\<lambda>s. case find (\<lambda>d. urlPattern d = urlPattern s) (rev dashboardRules) of
                     Some d \<Rightarrow> d | None \<Rightarrow> s) sdkRules @
          filter (\<lambda>d. urlPattern d \<notin> urlPattern ` set sdkRules) dashboardRules"
    by (simp only: mergeGeoRules_eq)
  show ?thesis
    unfolding entries using proto keys lookup geo by blast
qed

lemmas example_config_defs =
  example_sdk_config_def example_sdk_well_known_def example_sdk_geo_def
  example_remote_bundle_def example_remote_well_known_def example_remote_geo_def

lemmas array_index_defs = array_index_def decimal_digit_def decimal_value_def code_def

theorem mergeConfig_keyed_collections_witness:
  "distinct (map fst (sdk_files example_sdk_well_known)) \<and>
   distinct (map fst (rwk_files example_remote_well_known)) \<and>
   list_all (\<lambda>n. array_index n = None \<and> n \<noteq> ''__proto__'')
     (map fst (sdk_files example_sdk_well_known) @ map fst (rwk_files example_remote_well_known)) \<and>
   files_proto (files (wellKnown (mergeConfig example_sdk_config (Some example_remote_bundle)))) = None \<and>
   map fst (Object_entries
              (own_files (files (wellKnown (mergeConfig example_sdk_config (Some example_remote_bundle)))))) =
     [''ai-plugin.json'', ''security.txt'', ''llms.txt''] \<and>
   map_of (Object_entries
             (own_files (files (wellKnown (mergeConfig example_sdk_config (Some example_remote_bundle))))))
       ''ai-plugin.json'' =
     Some \<lparr>wk_mode = Replace, wk_content = Some ''{}''\<rparr> \<and>
   map_of (Object_entries
             (own_files (files (wellKnown (mergeConfig example_sdk_config (Some example_remote_bundle))))))
       ''security.txt'' =
     Some \<lparr>wk_mode = Disabled, wk_content = None\<rparr> \<and>
   map_of (Object_entries
             (own_files (files (wellKnown (mergeConfig example_sdk_config (Some example_remote_bundle))))))
       ''llms.txt'' =
     Some \<lparr>wk_mode = Replace, wk_content = Some ''LLM data''\<rparr> \<and>
   rules (geo (mergeConfig example_sdk_config (Some example_remote_bundle))) =
     [remote_products_rule, local_docs_rule, remote_pricing_rule]"
proof -
  let ?merged = "files (wellKnown (mergeConfig example_sdk_config (Some example_remote_bundle)))"
  let ?sfiles = "sdk_files example_sdk_well_known"
  let ?rfiles = "rwk_files example_remote_well_known"
  let ?sdkRules = "[local_products_rule, local_docs_rule]"
  let ?dashboardRules = "[remote_products_rule, remote_pricing_rule]"
  have d1: "distinct (map fst ?sfiles)"
    by (simp add: example_sdk_well_known_def)
  have d2: "distinct (map fst ?rfiles)"
    by (simp add: example_remote_well_known_def)
  have ord: "list_all (\<lambda>n. array_index n = None \<and> n \<noteq> ''__proto__'') (map fst ?sfiles @ map fst ?rfiles)"
    by (simp add: example_sdk_well_known_def example_remote_well_known_def array_index_defs)
  have s: "?sfiles = (case sdk_wellKnown example_sdk_config of None \<Rightarrow> [] | Some sw \<Rightarrow> sdk_files sw)"
    by (simp add: example_sdk_config_def)
  have r: "?rfiles = (case remote_section (Some example_remote_bundle) rb_wellKnown of
                        None \<Rightarrow> [] | Some rw \<Rightarrow> rwk_files rw)"
    by (simp add: example_remote_bundle_def remote_section_def)
  have sr: "?sdkRules = (case sdk_geo example_sdk_config of None \<Rightarrow> [] | Some g \<Rightarrow> nullish (grc_rules g) [])"
    by (simp add: example_sdk_config_def example_sdk_geo_def nullish_def)
  have dr: "?dashboardRules = (case remote_section (Some example_remote_bundle) rb_geo of
                                 None \<Rightarrow> [] | Some rg \<Rightarrow> nullish (rg_rules rg) [])"
    by (simp add: example_remote_bundle_def example_remote_geo_def remote_section_def nullish_def)
  have pats: "urlPattern local_products_rule = ''/products/*''" "urlPattern local_docs_rule = ''/docs/**''"
    "urlPattern remote_products_rule = ''/products/*''" "urlPattern remote_pricing_rule = ''/pricing''"
    by (simp_all add: local_products_rule_def local_docs_rule_def remote_products_rule_def
          remote_pricing_rule_def)
  note all = mergeConfig_keyed_collections [OF s r d1 d2 ord sr dr refl]
  have proto: "files_proto ?merged = None" using all by (rule conjunct1)
  have keys: "map fst (Object_entries (own_files ?merged)) =
                [''ai-plugin.json'', ''security.txt'', ''llms.txt'']"
    using all [THEN conjunct2, THEN conjunct1]
    by (simp add: example_sdk_well_known_def example_remote_well_known_def)
  have lookup: "map_of (Object_entries (own_files ?merged)) n =
          (case map_of ?sfiles n of
             Some m \<Rightarrow>
               (case map_of ?rfiles n of
                  Some rf \<Rightarrow> Some \<lparr>wk_mode = nullish (rf_mode rf) m, wk_content = rf_content rf\<rparr>
                | None \<Rightarrow> Some \<lparr>wk_mode = m, wk_content = None\<rparr>)
           | None \<Rightarrow>
               (case map_of ?rfiles n of
                  Some rf \<Rightarrow> Some \<lparr>wk_mode = nullish (rf_mode rf) Replace, wk_content = rf_content rf\<rparr>
                | None \<Rightarrow> None))" for n
    using all [THEN conjunct2, THEN conjunct2, THEN conjunct1] by (rule spec)
  have f1: "map_of (Object_entries (own_files ?merged)) ''ai-plugin.json'' =
              Some \<lparr>wk_mode = Replace, wk_content = Some ''{}''\<rparr>"
    unfolding lookup by (simp add: example_sdk_well_known_def example_remote_well_known_def nullish_def)
  have f2: "map_of (Object_entries (own_files ?merged)) ''security.txt'' =
              Some \<lparr>wk_mode = Disabled, wk_content = None\<rparr>"
    unfolding lookup by (simp add: example_sdk_well_known_def example_remote_well_known_def nullish_def)
  have f3: "map_of (Object_entries (own_files ?merged)) ''llms.txt'' =
              Some \<lparr>wk_mode = Replace, wk_content = Some ''LLM data''\<rparr>"
    unfolding lookup by (simp add: example_sdk_well_known_def example_remote_well_known_def nullish_def)
  have geo: "rules (geo (mergeConfig example_sdk_config (Some example_remote_bundle))) =
               [remote_products_rule, local_docs_rule, remote_pricing_rule]"
    using all [THEN conjunct2, THEN conjunct2, THEN conjunct2] by (simp add: pats)
  show ?thesis
    using d1 d2 ord proto keys f1 f2 f3 geo by (intro conjI)
qed

theorem mergeConfig_geo_rule_replaced_counterexample:
  "urlPattern local_products_rule = urlPattern remote_products_rule \<and>
   pageType local_products_rule = Some Product \<and>
   pageType remote_products_rule = None \<and>
   rules (geo (mergeConfig example_sdk_config (Some example_remote_bundle))) =
     [remote_products_rule, local_docs_rule, remote_pricing_rule] \<and>
   pageType (hd (rules (geo (mergeConfig example_sdk_config (Some example_remote_bundle))))) \<noteq>
     pageType local_products_rule"
proof -
  have pats: "urlPattern local_products_rule = ''/products/*''" "urlPattern local_docs_rule = ''/docs/**''"
    "urlPattern remote_products_rule = ''/products/*''" "urlPattern remote_pricing_rule = ''/pricing''"
    by (simp_all add: local_products_rule_def local_docs_rule_def remote_products_rule_def
          remote_pricing_rule_def)
  have "mergeGeoRules [local_products_rule, local_docs_rule] [remote_products_rule, remote_pricing_rule] =
          [remote_products_rule, local_docs_rule, remote_pricing_rule]"
    by (simp add: mergeGeoRules_def dashboardByPattern_def pats)
  then have "rules (geo (mergeConfig example_sdk_config (Some example_remote_bundle))) =
          [remote_products_rule, local_docs_rule, remote_pricing_rule]"
    by (simp add: mergeConfig_def mergeGeo_def remote_section_def Let_def example_config_defs nullish_def)
  then show ?thesis
    by (simp add: pats) (simp add: local_products_rule_def remote_products_rule_def)
qed

text \<open>
  The two kinds of file name the theorem leaves out. An SDK configuration that names
  \<^verbatim>\<open>b.txt\<close> before \<^verbatim>\<open>1\<close> resolves to an object that lists \<^verbatim>\<open>1\<close> first. A remote file
  named \<^verbatim>\<open>__proto__\<close> does not become an entry of the result: the assignment replaces the
  prototype of the resulting object, which then has no entry at all.
\<close>

lemma mergeWellKnown_array_index_name:
  "map fst (Object_entries (own_files (files (mergeWellKnown numeric_sdk_config None)))) =
     [''1'', ''b.txt'']"
  by (simp add: mergeWellKnown_def numeric_sdk_config_def remote_section_def Let_def
        Object_entries_def array_index_defs sdk_file_step_def files_set_def empty_files_def)

lemma mergeWellKnown_proto_name:
  "files (mergeWellKnown \<lparr>sdk_robotsTxt = None, sdk_sitemap = None, sdk_wellKnown = None, sdk_geo = None\<rparr>
            (Some proto_remote_bundle)) =
     \<lparr>own_files = [], files_proto = Some \<lparr>wk_mode = Replace, wk_content = Some ''x''\<rparr>\<rparr>"
  by (simp add: mergeWellKnown_def proto_remote_bundle_def remote_section_def Let_def
        Object_entries_def array_index_defs remote_file_step_def files_set_def empty_files_def
        nullish_def)

section \<open>Proofs: the remote config client\<close>

lemma cacheResponse_returns:
  "cacheResponse env cache url k r =
     Inr (if cache_available env \<and> \<not> put_throws env then cache((url, k) \<mapsto> r) else cache)"
  by (simp add: cacheResponse_def try_catch_def cache_put_def)

lemma try_edge_cache_miss:
  "\<not> cache_hit env cache (url, k) \<Longrightarrow> try_edge_cache env cache url k = Inr None"
  by (auto simp: try_edge_cache_def try_catch_def cache_match_def cache_hit_def)

lemma try_edge_cache_hit:
  "cache_available env \<Longrightarrow> \<not> match_throws env \<Longrightarrow> cache (url, k) = Some c \<Longrightarrow>
   try_edge_cache env cache url k = Inr (Some (cached_json c))"
  by (simp add: try_edge_cache_def try_catch_def cache_match_def)

lemma fetch_from_api_returns: "\<exists>out. fetch_from_api env cache url k ttl = Inr out"
  by (auto simp: fetch_from_api_def try_catch_def cacheResponse_returns split: option.splits)

lemma fetchConfig_returns: "\<exists>out. fetchConfig env cache host k base ttl = Inr out"
proof -
  have "\<exists>v. try_edge_cache env cache (config_url base host) k = Inr v"
    by (auto simp: try_edge_cache_def try_catch_def split: sum.splits option.splits)
  then obtain v where v: "try_edge_cache env cache (config_url base host) k = Inr v" ..
  show ?thesis
  proof (cases v)
    case None
    with v show ?thesis
      using fetch_from_api_returns [of env cache "config_url base host" k ttl]
      by (simp add: fetchConfig_def Let_def)
  next
    case (Some b)
    with v show ?thesis by (simp add: fetchConfig_def Let_def)
  qed
qed

text \<open>
  Claim C8. When the edge cache does not answer, \<^verbatim>\<open>fetchConfig\<close> goes to the API.
  On a 404 it returns null and puts a null sentinel with max-age equal to the TTL into
  the cache; on a network error and on any other status outside 200..299 it returns
  null and leaves the cache as it was; on a status in 200..299 whose body parses it
  returns the parsed body and puts it into the cache with max-age equal to the TTL.
  When the cache is missing or \<^verbatim>\<open>cache.put\<close> fails, the same value is returned and the
  cache is unchanged. The call always returns. After a 404 stored by a working
  cache, the next call is answered null from the cache.
\<close>

theorem fetchConfig_network_outcomes:
  assumes "\<not> cache_hit env cache (config_url base host, k)"
      and "sentinel = \<lparr>content_type = ''application/json'', max_age = ttl, cached_json = None\<rparr>"
  shows
    "(\<forall>r. network env = Some r \<and> api_status r = 404 \<longrightarrow>
        fetchConfig env cache host k base ttl =
          Inr (None, if cache_available env \<and> \<not> put_throws env
                     then cache((config_url base host, k) \<mapsto> sentinel) else cache)) \<and>
     (network env = None \<longrightarrow> fetchConfig env cache host k base ttl = Inr (None, cache)) \<and>
     (\<forall>r. network env = Some r \<and> api_status r \<noteq> 404 \<and> \<not> response_ok (api_status r) \<longrightarrow>
        fetchConfig env cache host k base ttl = Inr (None, cache)) \<and>
     (\<forall>r parsed. network env = Some r \<and> response_ok (api_status r) \<and> api_json r = Some parsed \<longrightarrow>
        fetchConfig env cache host k base ttl =
          Inr (parsed, if cache_available env \<and> \<not> put_throws env
                       then cache((config_url base host, k) \<mapsto>
                              \<lparr>content_type = ''application/json'', max_age = ttl, cached_json = parsed\<rparr>)
                       else cache)) \<and>
     (\<exists>out. fetchConfig env cache host k base ttl = Inr out) \<and>
     (\<forall>r env2. network env = Some r \<and> api_status r = 404 \<and> cache_available env \<and> \<not> put_throws env \<and>
        cache_available env2 \<and> \<not> match_throws env2 \<longrightarrow>
        (\<exists>cache'. fetchConfig env cache host k base ttl = Inr (None, cache') \<and>
                  fetchConfig env2 cache' host k base ttl = Inr (None, cache')))"
proof -
  let ?url = "config_url base host"
  have miss: "try_edge_cache env cache ?url k = Inr None"
    using assms(1) by (rule try_edge_cache_miss)
  have api: "fetchConfig env cache host k base ttl = fetch_from_api env cache ?url k ttl"
    by (simp add: fetchConfig_def Let_def miss)
  have not_found: "fetch_from_api env cache ?url k ttl =
      Inr (None, if cache_available env \<and> \<not> put_throws env then cache((?url, k) \<mapsto> sentinel) else cache)"
    if "network env = Some r" and "api_status r = 404" for r
    using that by (simp add: fetch_from_api_def try_catch_def cacheResponse_returns assms(2))
  have net_error: "fetch_from_api env cache ?url k ttl = Inr (None, cache)" if "network env = None"
    using that by (simp add: fetch_from_api_def try_catch_def)
  have other: "fetch_from_api env cache ?url k ttl = Inr (None, cache)"
    if "network env = Some r" and "api_status r \<noteq> 404" and "\<not> response_ok (api_status r)" for r
    using that by (simp add: fetch_from_api_def try_catch_def)
  have success: "fetch_from_api env cache ?url k ttl =
      Inr (parsed, if cache_available env \<and> \<not> put_throws env
                   then cache((?url, k) \<mapsto>
                          \<lparr>content_type = ''application/json'', max_age = ttl, cached_json = parsed\<rparr>)
                   else cache)"
    if "network env = Some r" and "response_ok (api_status r)" and "api_json r = Some parsed" for r parsed
  proof -
    have "api_status r \<noteq> 404" using that(2) by (auto simp: response_ok_def)
    then show ?thesis
      using that by (simp add: fetch_from_api_def try_catch_def cacheResponse_returns)
  qed
  have remembered: "\<exists>cache'. fetchConfig env cache host k base ttl = Inr (None, cache') \<and>
                  fetchConfig env2 cache' host k base ttl = Inr (None, cache')"
    if "network env = Some r" and "api_status r = 404" and "cache_available env" and "\<not> put_throws env"
      and "cache_available env2" and "\<not> match_throws env2" for r env2
  proof -
    let ?cache' = "cache((?url, k) \<mapsto> sentinel)"
    have first: "fetchConfig env cache host k base ttl = Inr (None, ?cache')"
      using not_found [OF that(1) that(2)] that(3) that(4) by (simp add: api)
    have "try_edge_cache env2 ?cache' ?url k = Inr (Some (cached_json sentinel))"
      using that(5) that(6) by (intro try_edge_cache_hit) simp_all
    then have "fetchConfig env2 ?cache' host k base ttl = Inr (None, ?cache')"
      by (simp add: fetchConfig_def Let_def assms(2))
    with first show ?thesis by blast
  qed
  show ?thesis
    using not_found net_error other success remembered
      fetchConfig_returns [of env cache host k base ttl]
    unfolding api [symmetric] by blast
qed

theorem fetchConfig_network_outcomes_witness:
  "\<not> cache_hit env_not_found Map.empty (config_url ''https://api.botmon.io'' ''my site.com'', ''test-key'') \<and>
   config_url ''https://api.botmon.io'' ''my site.com'' = ''https://api.botmon.io/v1/sdk-config/my%20site.com'' \<and>
   fetchConfig env_not_found Map.empty ''my site.com'' ''test-key'' ''https://api.botmon.io'' 300 =
     Inr (None, [(''https://api.botmon.io/v1/sdk-config/my%20site.com'', ''test-key'') \<mapsto>
                   \<lparr>content_type = ''application/json'', max_age = 300, cached_json = None\<rparr>])"
proof -
  have miss: "\<not> cache_hit env_not_found Map.empty
                 (config_url ''https://api.botmon.io'' ''my site.com'', ''test-key'')"
    by (simp add: cache_hit_def)
  have url: "config_url ''https://api.botmon.io'' ''my site.com'' =
               ''https://api.botmon.io/v1/sdk-config/my%20site.com''"
    by code_simp
  have net: "network env_not_found = Some \<lparr>api_status = 404, api_json = None\<rparr>"
    and env: "cache_available env_not_found" "\<not> put_throws env_not_found"
    by (simp_all add: env_not_found_def)
  show ?thesis
    using fetchConfig_network_outcomes [OF miss refl, of 300] net env url miss by simp
qed

section \<open>Proofs: merging robots.txt\<close>

lemma trimEnd_prefix: "\<exists>zs. s = trimEnd s @ zs"
proof -
  have "rev s = takeWhile js_space (rev s) @ dropWhile js_space (rev s)" by simp
  then have "s = rev (dropWhile js_space (rev s)) @ rev (takeWhile js_space (rev s))"
    by (metis rev_append rev_rev_ident)
  then show ?thesis unfolding trimEnd_def by blast
qed

lemma trimEnd_last: "trimEnd s \<noteq> [] \<Longrightarrow> \<not> js_space (last (trimEnd s))"
  unfolding trimEnd_def using hd_dropWhile [of js_space "rev s"] by (simp add: last_rev)

lemma trimStart_hd: "trimStart s \<noteq> [] \<Longrightarrow> \<not> js_space (hd (trimStart s))"
  unfolding trimStart_def by (rule hd_dropWhile)

lemma trim_ends:
  assumes "trim s \<noteq> []"
  shows "\<not> js_space (hd (trim s)) \<and> \<not> js_space (last (trim s))"
proof -
  let ?u = "trimStart s"
  obtain zs where u: "?u = trimEnd ?u @ zs" using trimEnd_prefix by blast
  have ne: "trimEnd ?u \<noteq> []" using assms by (simp add: trim_def)
  then have "?u \<noteq> []" using u by auto
  then have "\<not> js_space (hd ?u)" by (rule trimStart_hd)
  moreover have "hd ?u = hd (trimEnd ?u)" using u ne by (metis hd_append2)
  ultimately show ?thesis using trimEnd_last [OF ne] by (simp add: trim_def)
qed

lemma trim_fixed:
  assumes "s \<noteq> []" and "\<not> js_space (hd s)" and "\<not> js_space (last s)"
  shows "trim s = s"
proof -
  have a: "trimStart s = s" using assms(1,2) by (cases s) (simp_all add: trimStart_def)
  have "dropWhile js_space (rev s) = rev s"
    using assms(1,3) by (cases "rev s") (simp_all add: hd_rev [symmetric])
  then have "trimEnd s = s" by (simp add: trimEnd_def)
  with a show ?thesis by (simp add: trim_def)
qed

lemma trim_empty: "trim [] = []"
  by (simp add: trim_def trimStart_def trimEnd_def)

lemma trim_idem: "trim (trim s) = trim s"
proof (cases "trim s = []")
  case True
  then show ?thesis by (simp add: trim_empty)
next
  case False
  then show ?thesis using trim_ends [OF False] by (intro trim_fixed) simp_all
qed

lemma set_trim: "set (trim s) \<subseteq> set s"
proof -
  have "set (trimEnd u) \<subseteq> set u" for u
    unfolding trimEnd_def using set_dropWhileD [of _ js_space "rev u"] by auto
  moreover have "set (trimStart s) \<subseteq> set s"
    unfolding trimStart_def using set_dropWhileD [of _ js_space s] by auto
  ultimately show ?thesis unfolding trim_def by blast
qed

lemma trim_space_cons: "js_space c \<Longrightarrow> trim (c # s) = trim s"
  by (simp add: trim_def trimStart_def)


lemma split_lines_no_lf: "l \<in> set (split_lines s) \<Longrightarrow> CHR 0x0A \<notin> set l"
proof (induction s arbitrary: l)
  case Nil
  then show ?case by simp
next
  case (Cons c cs)
  show ?case
  proof (cases "c = CHR 0x0A")
    case True
    with Cons show ?thesis by auto
  next
    case False
    obtain k ks where ks: "split_lines cs = k # ks" by (cases "split_lines cs") (cases cs, auto split: if_splits list.splits)
    have "CHR 0x0A \<notin> set k" using Cons.IH ks by simp
    then show ?thesis using Cons.prems Cons.IH False ks by auto
  qed
qed

lemma split_lines_single: "CHR 0x0A \<notin> set x \<Longrightarrow> split_lines x = [x]"
  by (induction x) auto

lemma split_lines_append: "CHR 0x0A \<notin> set x \<Longrightarrow> split_lines (x @ CHR 0x0A # s) = x # split_lines s"
  by (induction x) auto

lemma split_lines_join:
  "ls \<noteq> [] \<Longrightarrow> \<forall>l \<in> set ls. CHR 0x0A \<notin> set l \<Longrightarrow> split_lines (join [CHR 0x0A] ls) = ls"
proof (induction "[CHR 0x0A]" ls rule: join.induct)
  case 1
  then show ?case by simp
next
  case (2 x)
  then show ?case by (simp add: split_lines_single)
next
  case (3 x y ys)
  then show ?case by (simp add: split_lines_append)
qed

lemma join_append:
  "xs \<noteq> [] \<Longrightarrow> ys \<noteq> [] \<Longrightarrow> join sep (xs @ ys) = join sep xs @ sep @ join sep ys"
proof (induction sep xs rule: join.induct)
  case (1 sep)
  then show ?case by simp
next
  case (2 sep x)
  then show ?case by (cases ys) simp_all
next
  case (3 sep x y zs)
  then show ?case by simp
qed

lemma save_block_ok:
  "list_all block_ok blocks \<Longrightarrow> (\<forall>a. cur = Some a \<longrightarrow> agent_ok a) \<Longrightarrow> list_all rule_ok rs \<Longrightarrow>
   list_all block_ok (save_block blocks cur rs)"
  by (cases cur) (simp_all add: save_block_def block_ok_def)

lemma parse_lines_ok:
  "list_all block_ok blocks \<Longrightarrow> (\<forall>a. cur = Some a \<longrightarrow> agent_ok a) \<Longrightarrow> list_all rule_ok rs \<Longrightarrow>
   \<forall>l \<in> set ls. CHR 0x0A \<notin> set l \<Longrightarrow> list_all block_ok (parse_lines ls blocks cur rs)"
proof (induction ls arbitrary: blocks cur rs)
  case Nil
  then show ?case by (simp add: save_block_ok)
next
  case (Cons rawLine rest)
  let ?line = "trim rawLine"
  have nolf: "CHR 0x0A \<notin> set ?line" using Cons.prems(4) set_trim [of rawLine] by auto
  have rest: "\<forall>l \<in> set rest. CHR 0x0A \<notin> set l" using Cons.prems(4) by simp
  consider (skip) "?line = [] \<or> startsWith ?line ''#''"
    | (agent) "\<not> (?line = [] \<or> startsWith ?line ''#'')" "startsWith (toLowerCase ?line) ''user-agent:''"
    | (rule) "\<not> (?line = [] \<or> startsWith ?line ''#'')" "\<not> startsWith (toLowerCase ?line) ''user-agent:''"
    by blast
  then show ?case
  proof cases
    case skip
    then show ?thesis using Cons.IH [OF Cons.prems(1) Cons.prems(2) Cons.prems(3) rest] by (simp add: Let_def)
  next
    case agent
    let ?a = "trim (drop (length ''user-agent:'') ?line)"
    have "set ?a \<subseteq> set ?line" using set_trim [of "drop (length ''user-agent:'') ?line"] set_drop_subset [of "length ''user-agent:''" ?line] by blast
    then have "agent_ok ?a" using nolf by (auto simp: agent_ok_def trim_idem)
    then have "list_all block_ok (parse_lines rest (save_block blocks cur rs) (Some ?a) [])"
      using save_block_ok [OF Cons.prems(1) Cons.prems(2) Cons.prems(3)] rest
      by (intro Cons.IH) simp_all
    then show ?thesis using agent by (simp add: Let_def)
  next
    case rule
    have ok: "rule_ok ?line" using rule nolf by (simp add: rule_ok_def trim_idem)
    show ?thesis
    proof (cases cur)
      case None
      then show ?thesis
        using rule Cons.IH [OF Cons.prems(1) Cons.prems(2) Cons.prems(3) rest] by (simp add: Let_def)
    next
      case (Some a)
      have "list_all block_ok (parse_lines rest blocks cur (rs @ [?line]))"
        using Cons.prems(1) Cons.prems(2) Cons.prems(3) ok rest by (intro Cons.IH) simp_all
      then show ?thesis using rule Some by (simp add: Let_def)
    qed
  qed
qed

lemma parseRobotsTxt_ok: "list_all block_ok (parseRobotsTxt s)"
  unfolding parseRobotsTxt_def using split_lines_no_lf [of _ s]
  by (intro parse_lines_ok) simp_all


lemma header_facts:
  "trim ''User-agent: '' = ''User-agent:''"
  "toLowerCase ''User-agent: '' = ''user-agent: ''"
  "toLowerCase ''User-agent:'' = ''user-agent:''"
  "js_space CHR '' ''" "\<not> js_space CHR ''U''"
  by code_simp+

lemma parse_header:
  assumes "agent_ok a"
  shows "parse_lines ((''User-agent: '' @ a) # after) blocks cur rs =
           parse_lines after (save_block blocks cur rs) (Some a) []"
proof (cases "a = []")
  case True
  then show ?thesis by (simp add: header_facts Let_def startsWith_def trim_empty)
next
  case False
  let ?h = "''User-agent: '' @ a"
  have ta: "trim a = a" using assms by (simp add: agent_ok_def)
  then have "\<not> js_space (last a)" using trim_ends [of a] False by simp
  then have th: "trim ?h = ?h" using False by (intro trim_fixed) (simp_all add: header_facts)
  have low: "toLowerCase ?h = ''user-agent: '' @ toLowerCase a"
    using header_facts(2) by (simp add: toLowerCase_def)
  have "trim (drop (length ''user-agent:'') ?h) = trim (CHR '' '' # a)" by simp
  also have "\<dots> = a" using ta by (simp add: trim_space_cons header_facts)
  finally have ag: "trim (drop (length ''user-agent:'') ?h) = a" .
  show ?thesis
    unfolding parse_lines.simps Let_def th low using ag
    by (simp add: startsWith_def)
qed

lemma parse_rules:
  "list_all rule_ok rs \<Longrightarrow>
   parse_lines (rs @ after) blocks (Some a) acc = parse_lines after blocks (Some a) (acc @ rs)"
proof (induction rs arbitrary: acc)
  case Nil
  show ?case by simp
next
  case (Cons r rs)
  have r: "trim r = r" "r \<noteq> []" "\<not> startsWith r ''#''" "\<not> startsWith (toLowerCase r) ''user-agent:''"
    using Cons.prems by (simp_all add: rule_ok_def)
  have "parse_lines ((r # rs) @ after) blocks (Some a) acc = parse_lines (rs @ after) blocks (Some a) (acc @ [r])"
    using r by (simp add: Let_def)
  also have "\<dots> = parse_lines after blocks (Some a) ((acc @ [r]) @ rs)"
    using Cons.prems by (intro Cons.IH) simp
  finally show ?case by simp
qed

lemma parse_blank: "parse_lines ([] # after) blocks cur rs = parse_lines after blocks cur rs"
  by (simp add: trim_empty Let_def)

lemma parse_block:
  assumes "block_ok b"
  shows "parse_lines (block_lines b @ after) blocks cur rs =
           parse_lines after (save_block blocks cur rs) (Some (userAgent b)) (ua_rules b)"
proof -
  have ag: "agent_ok (userAgent b)" using assms by (simp add: block_ok_def)
  have "parse_lines (block_lines b @ after) blocks cur rs =
          parse_lines ((''User-agent: '' @ userAgent b) # (ua_rules b @ after)) blocks cur rs"
    by (simp add: block_lines_def)
  also have "\<dots> = parse_lines (ua_rules b @ after) (save_block blocks cur rs) (Some (userAgent b)) []"
    by (rule parse_header [OF ag])
  also have "\<dots> = parse_lines after (save_block blocks cur rs) (Some (userAgent b)) ([] @ ua_rules b)"
    using assms by (intro parse_rules) (simp add: block_ok_def)
  finally show ?thesis by simp
qed

lemma save_block_Some:
  "save_block blocks (Some (userAgent b)) (ua_rules b) = blocks @ [b]"
  by (simp add: save_block_def)

lemma parse_sep_lines:
  "bs \<noteq> [] \<Longrightarrow> list_all block_ok bs \<Longrightarrow>
   parse_lines (sep_lines bs) blocks cur rs = save_block blocks cur rs @ bs"
proof (induction bs arbitrary: blocks cur rs rule: sep_lines.induct)
  case 1
  then show ?case by simp
next
  case (2 b)
  then have "block_ok b" by simp
  from parse_block [OF this, of "[]"] show ?case by (simp add: save_block_Some)
next
  case (3 b b' bs)
  then have b: "block_ok b" and rest: "list_all block_ok (b' # bs)" by simp_all
  have "parse_lines (sep_lines (b # b' # bs)) blocks cur rs =
          parse_lines ([] # sep_lines (b' # bs)) (save_block blocks cur rs) (Some (userAgent b)) (ua_rules b)"
    using parse_block [OF b] by simp
  also have "\<dots> = save_block (save_block blocks cur rs) (Some (userAgent b)) (ua_rules b) @ (b' # bs)"
    unfolding parse_blank using rest by (intro "3.IH") simp_all
  finally show ?case by (simp add: save_block_Some)
qed

lemma block_lines_no_lf:
  "block_ok b \<Longrightarrow> \<forall>l \<in> set (block_lines b). CHR 0x0A \<notin> set l"
  by (auto simp: block_ok_def block_lines_def agent_ok_def rule_ok_def list_all_iff)

lemma sep_lines_no_lf:
  "list_all block_ok bs \<Longrightarrow> \<forall>l \<in> set (sep_lines bs). CHR 0x0A \<notin> set l"
  by (induction bs rule: sep_lines.induct) (auto dest: block_lines_no_lf)

lemma sep_lines_nonempty: "sep_lines bs \<noteq> []"
  by (induction bs rule: sep_lines.induct) (simp_all add: block_lines_def)

lemma blocksToString_lines: "blocksToString bs = join [CHR 0x0A] (sep_lines bs)"
proof (induction bs rule: sep_lines.induct)
  case 1
  show ?case by (simp add: blocksToString_def)
next
  case (2 b)
  show ?case by (simp add: blocksToString_def block_lines_def)
next
  case (3 b b' bs)
  have "join [CHR 0x0A] (block_lines b @ ([] # sep_lines (b' # bs))) =
          join [CHR 0x0A] (block_lines b) @ [CHR 0x0A] @ join [CHR 0x0A] ([] # sep_lines (b' # bs))"
    by (rule join_append) (simp_all add: block_lines_def)
  moreover have "join [CHR 0x0A] ([] # sep_lines (b' # bs)) = [CHR 0x0A] @ join [CHR 0x0A] (sep_lines (b' # bs))"
    using sep_lines_nonempty [of "b' # bs"] by (cases "sep_lines (b' # bs)") simp_all
  ultimately show ?case using 3 by (simp add: blocksToString_def block_lines_def)
qed

lemma parse_blocksToString:
  assumes "list_all block_ok bs"
  shows "parseRobotsTxt (blocksToString bs) = bs"
proof (cases "bs = []")
  case True
  then show ?thesis by (simp add: parseRobotsTxt_def blocksToString_def trim_empty save_block_def Let_def)
next
  case False
  have "split_lines (blocksToString bs) = sep_lines bs"
    unfolding blocksToString_lines
    using sep_lines_nonempty sep_lines_no_lf [OF assms] by (rule split_lines_join)
  then show ?thesis
    using parse_sep_lines [OF False assms, of "[]" None "[]"]
    by (simp add: parseRobotsTxt_def save_block_def)
qed


lemma merge_origin_blocks_eq:
  "merge_origin_blocks ba ob merged used =
     (merged @ map (\<lambda>x. case ba (agent_key x) of Some m \<Rightarrow> m | None \<Rightarrow> x) ob,
      used \<union> {agent_key x | x. x \<in> set ob \<and> ba (agent_key x) \<noteq> None})"
  by (induction ob arbitrary: merged used) (auto simp: Let_def agent_key_def split: option.splits)

lemma botmonByAgent_fold:
  "fold (\<lambda>block m. m(toLowerCase (userAgent block) \<mapsto> block)) mb m k =
     (case find (\<lambda>b. agent_key b = k) (rev mb) of Some b \<Rightarrow> Some b | None \<Rightarrow> m k)"
  by (induction mb arbitrary: m) (auto simp: find_append agent_key_def split: option.splits)

lemma botmonByAgent_find: "botmonByAgent mb k = find (\<lambda>b. agent_key b = k) (rev mb)"
  by (simp add: botmonByAgent_def botmonByAgent_fold split: option.splits)

lemma botmonByAgent_defined: "m \<in> set mb \<Longrightarrow> botmonByAgent mb (agent_key m) \<noteq> None"
  by (auto simp: botmonByAgent_find find_None_iff)

lemma merge_blocks_eq:
  "merge_blocks ob mb =
     map (\<lambda>x. case find (\<lambda>m. agent_key m = agent_key x) (rev mb) of Some m \<Rightarrow> m | None \<Rightarrow> x) ob @
     filter (\<lambda>m. agent_key m \<notin> agent_key ` set ob) mb"
proof -
  have "filter (\<lambda>m. agent_key m \<notin> {agent_key x | x. x \<in> set ob \<and> botmonByAgent mb (agent_key x) \<noteq> None}) mb
        = filter (\<lambda>m. agent_key m \<notin> agent_key ` set ob) mb"
  proof (rule filter_cong [OF refl])
    fix m assume "m \<in> set mb"
    then have "botmonByAgent mb (agent_key m) \<noteq> None" by (rule botmonByAgent_defined)
    then show "(agent_key m \<notin> {agent_key x | x. x \<in> set ob \<and> botmonByAgent mb (agent_key x) \<noteq> None})
               = (agent_key m \<notin> agent_key ` set ob)"
      by (auto simp: image_iff)
  qed
  then show ?thesis
    by (simp add: merge_blocks_def merge_origin_blocks_eq botmonByAgent_find agent_key_def [symmetric])
qed

lemma merge_blocks_ok:
  "list_all block_ok ob \<Longrightarrow> list_all block_ok mb \<Longrightarrow> list_all block_ok (merge_blocks ob mb)"
  unfolding merge_blocks_eq
  by (auto simp: list_all_iff find_Some_iff split: option.splits) (metis nth_mem length_rev set_rev)


lemma parse_mergeRobotsTxt:
  "parseRobotsTxt (mergeRobotsTxt origin managed) =
     merge_blocks (parseRobotsTxt origin) (parseRobotsTxt managed)"
  unfolding mergeRobotsTxt_def
  by (intro parse_blocksToString merge_blocks_ok parseRobotsTxt_ok)

lemma override_key:
  "agent_key (case find (\<lambda>m. agent_key m = agent_key x) ms of Some m \<Rightarrow> m | None \<Rightarrow> x) = agent_key x"
  by (auto simp: find_Some_iff split: option.splits)

lemma keys_of_overrides:
  "map agent_key (map (\<lambda>x. case find (\<lambda>m. agent_key m = agent_key x) ms of Some m \<Rightarrow> m | None \<Rightarrow> x) ob) =
     map agent_key ob"
  by (simp add: override_key comp_def)

lemma find_distinct_key:
  assumes "distinct (map agent_key ms)" and "m \<in> set ms"
  shows "find (\<lambda>m'. agent_key m' = agent_key m) ms = Some m"
proof -
  have inj: "inj_on agent_key (set ms)" using assms(1) by (simp add: distinct_map)
  obtain m' where f: "find (\<lambda>m'. agent_key m' = agent_key m) ms = Some m'"
    using assms(2) by (cases "find (\<lambda>m'. agent_key m' = agent_key m) ms") (auto simp: find_None_iff)
  then have "m' \<in> set ms" and "agent_key m' = agent_key m"
    by (auto simp: find_Some_iff)
  then have "m' = m" using inj assms(2) by (auto dest: inj_onD)
  with f show ?thesis by simp
qed

text \<open>
  Claim C2, as the code has it. Read back with \<^verbatim>\<open>parseRobotsTxt\<close>, the output of
  \<^verbatim>\<open>mergeRobotsTxt\<close> is: the origin blocks in their order, each replaced by the last
  managed block with the same lower-cased agent when there is one, followed by the
  managed blocks whose agent no origin block has, in their order. So an origin block
  without a managed override stays in its place unchanged, and the managed-only blocks
  come after all origin-derived blocks. When no two managed blocks share an agent,
  every managed block appears in the output; when moreover no two origin blocks share
  an agent, no two output blocks do.
\<close>

theorem mergeRobotsTxt_blocks:
  assumes "ob = parseRobotsTxt origin" and "mb = parseRobotsTxt managed"
      and "out = parseRobotsTxt (mergeRobotsTxt origin managed)"
  shows
    "out = map (\<lambda>x. case find (\<lambda>m. agent_key m = agent_key x) (rev mb) of Some m \<Rightarrow> m | None \<Rightarrow> x) ob @
           filter (\<lambda>m. agent_key m \<notin> agent_key ` set ob) mb \<and>
     (\<forall>i. i < length ob \<and> agent_key (ob ! i) \<notin> agent_key ` set mb \<longrightarrow> out ! i = ob ! i) \<and>
     drop (length ob) out = filter (\<lambda>m. agent_key m \<notin> agent_key ` set ob) mb \<and>
     (distinct (map agent_key mb) \<longrightarrow> set mb \<subseteq> set out) \<and>
     (distinct (map agent_key ob) \<and> distinct (map agent_key mb) \<longrightarrow> distinct (map agent_key out))"
proof -
  let ?over = "\<lambda>x. case find (\<lambda>m. agent_key m = agent_key x) (rev mb) of Some m \<Rightarrow> m | None \<Rightarrow> x"
  let ?only = "filter (\<lambda>m. agent_key m \<notin> agent_key ` set ob) mb"
  have out: "out = map ?over ob @ ?only"
    using assms by (simp add: parse_mergeRobotsTxt merge_blocks_eq)
  have same: "out ! i = ob ! i" if "i < length ob" and "agent_key (ob ! i) \<notin> agent_key ` set mb" for i
  proof -
    have "find (\<lambda>m. agent_key m = agent_key (ob ! i)) (rev mb) = None"
      using that(2) by (force simp: find_None_iff image_iff)
    then show ?thesis using that(1) by (simp add: out nth_append)
  qed
  have tail: "drop (length ob) out = ?only" by (simp add: out)
  have all_managed: "set mb \<subseteq> set out" if d: "distinct (map agent_key mb)"
  proof
    fix m assume m: "m \<in> set mb"
    show "m \<in> set out"
    proof (cases "agent_key m \<in> agent_key ` set ob")
      case False
      with m show ?thesis by (simp add: out)
    next
      case True
      then obtain x where x: "x \<in> set ob" "agent_key x = agent_key m" by auto
      have "distinct (map agent_key (rev mb))" using d by (simp add: rev_map [symmetric])
      then have "find (\<lambda>m'. agent_key m' = agent_key m) (rev mb) = Some m"
        using m by (intro find_distinct_key) simp_all
      then have "?over x = m" using x(2) by simp
      then have "m \<in> set (map ?over ob)" using x(1) by force
      then show ?thesis by (simp add: out)
    qed
  qed
  have no_dup: "distinct (map agent_key out)"
    if "distinct (map agent_key ob)" and "distinct (map agent_key mb)"
  proof -
    have "distinct (map agent_key ?only)" using that(2) by (rule distinct_map_filter)
    moreover have "set (map agent_key ob) \<inter> set (map agent_key ?only) = {}"
      by (force simp: image_iff)
    moreover have "map agent_key out = map agent_key ob @ map agent_key ?only"
      by (simp only: out map_append keys_of_overrides)
    ultimately show ?thesis using that(1) by (simp only: distinct_append)
  qed
  show ?thesis using out same tail all_managed no_dup by blast
qed

theorem mergeRobotsTxt_blocks_witness:
  "distinct (map agent_key (parseRobotsTxt origin_robots)) \<and>
   distinct (map agent_key (parseRobotsTxt managed_robots)) \<and>
   parseRobotsTxt (mergeRobotsTxt origin_robots managed_robots) =
     [\<lparr>userAgent = ''*'', ua_rules = [''Disallow: /private'']\<rparr>,
      \<lparr>userAgent = ''Googlebot'', ua_rules = [''Allow: /'']\<rparr>,
      \<lparr>userAgent = ''GPTBot'', ua_rules = [''Disallow: /'']\<rparr>] \<and>
   set (parseRobotsTxt managed_robots) \<subseteq> set (parseRobotsTxt (mergeRobotsTxt origin_robots managed_robots)) \<and>
   distinct (map agent_key (parseRobotsTxt (mergeRobotsTxt origin_robots managed_robots)))"
proof -
  have d1: "distinct (map agent_key (parseRobotsTxt origin_robots))" by code_simp
  have d2: "distinct (map agent_key (parseRobotsTxt managed_robots))" by code_simp
  have out: "parseRobotsTxt (mergeRobotsTxt origin_robots managed_robots) =
     [\<lparr>userAgent = ''*'', ua_rules = [''Disallow: /private'']\<rparr>,
      \<lparr>userAgent = ''Googlebot'', ua_rules = [''Allow: /'']\<rparr>,
      \<lparr>userAgent = ''GPTBot'', ua_rules = [''Disallow: /'']\<rparr>]" by code_simp
  show ?thesis
    using mergeRobotsTxt_blocks [OF refl refl refl, of origin_robots managed_robots] d1 d2 out
    by blast
qed

theorem mergeRobotsTxt_duplicates_counterexample:
  "\<not> distinct (map agent_key (parseRobotsTxt (mergeRobotsTxt origin_twice []))) \<and>
   \<lparr>userAgent = ''a'', ua_rules = [''Disallow: /x'']\<rparr> \<in> set (parseRobotsTxt managed_twice) \<and>
   \<lparr>userAgent = ''a'', ua_rules = [''Disallow: /x'']\<rparr>
     \<notin> set (parseRobotsTxt (mergeRobotsTxt ''User-agent: a'' managed_twice))"
  by code_simp


section \<open>Proofs: glob patterns\<close>

lemma replaceAll_step:
  "t \<noteq> [] \<Longrightarrow> \<not> prefix t (x # xs) \<Longrightarrow> replaceAll t r (x # xs) = x # replaceAll t r xs"
  by (simp add: replaceAll.simps [of t r "x # xs"])

lemma replaceAll_Nil: "replaceAll t r [] = []"
  by (simp add: replaceAll.simps [of t r "[]"])

lemma replaceAll_skip:
  "t \<noteq> [] \<Longrightarrow> hd t \<notin> set xs \<Longrightarrow> replaceAll t r (xs @ s) = xs @ replaceAll t r s"
proof (induction xs)
  case Nil
  show ?case by simp
next
  case (Cons x xs)
  have "\<not> prefix t (x # xs @ s)" using Cons.prems by (cases t) auto
  then have "replaceAll t r (x # xs @ s) = x # replaceAll t r (xs @ s)"
    using Cons.prems(1) by (intro replaceAll_step)
  then show ?case using Cons by simp
qed

lemma replaceAll_absent: "t \<noteq> [] \<Longrightarrow> hd t \<notin> set xs \<Longrightarrow> replaceAll t r xs = xs"
  using replaceAll_skip [of t xs r "[]"] by (simp add: replaceAll_Nil)

lemma escape_special_append: "escape_special (xs @ ys) = escape_special xs @ escape_special ys"
  by (simp add: escape_special_def)

lemma escape_special_Nil: "escape_special [] = []"
  by (simp add: escape_special_def)

lemma escape_special_Cons:
  "escape_special (c # cs) = (if c \<in> set escaped_chars then [backslash, c] else [c]) @ escape_special cs"
  by (simp add: escape_special_def)

lemma star_not_escaped: "CHR ''*'' \<notin> set escaped_chars" "CHR ''/'' \<notin> set escaped_chars"
  "CHR ''{'' \<in> set escaped_chars" "backslash \<noteq> CHR ''*''" "backslash \<noteq> CHR ''{''"
  "backslash \<noteq> CHR ''/''" "backslash \<in> set escaped_chars"
  by (simp_all add: escaped_chars_def backslash_def)

lemma set_escape_special: "set (escape_special p) \<subseteq> insert backslash (set p)"
  by (induction p) (auto simp: escape_special_Cons escape_special_Nil)

lemma escape_no_star: "CHR ''*'' \<notin> set p \<Longrightarrow> CHR ''*'' \<notin> set (escape_special p)"
  using set_escape_special [of p] star_not_escaped by auto

lemma escape_hd_not_brace: "hd (escape_special p @ CHR ''/'' # s) \<noteq> CHR ''{''"
  by (cases p) (auto simp: escape_special_Cons escape_special_Nil star_not_escaped)

lemma replace_globstar_skip:
  "replaceAll ''{{GLOBSTAR}}'' r (escape_special p @ CHR ''/'' # s) =
     escape_special p @ replaceAll ''{{GLOBSTAR}}'' r (CHR ''/'' # s)"
proof (induction p)
  case Nil
  show ?case by (simp add: escape_special_def)
next
  case (Cons c p)
  let ?rest = "escape_special p @ CHR ''/'' # s"
  have nb: "hd ?rest \<noteq> CHR ''{''" by (rule escape_hd_not_brace)
  have ne: "?rest \<noteq> []" by simp
  have second: "\<not> prefix ''{{GLOBSTAR}}'' (x # ?rest)" for x
    using nb ne by (cases ?rest) auto
  show ?case
  proof (cases "c \<in> set escaped_chars")
    case True
    have first: "\<not> prefix ''{{GLOBSTAR}}'' (backslash # c # ?rest)"
      using star_not_escaped by auto
    have "replaceAll ''{{GLOBSTAR}}'' r (backslash # c # ?rest) =
            backslash # replaceAll ''{{GLOBSTAR}}'' r (c # ?rest)"
      using first by (intro replaceAll_step) simp_all
    also have "replaceAll ''{{GLOBSTAR}}'' r (c # ?rest) = c # replaceAll ''{{GLOBSTAR}}'' r ?rest"
      using second [of c] by (intro replaceAll_step) simp_all
    finally have "replaceAll ''{{GLOBSTAR}}'' r (backslash # c # ?rest) =
            backslash # c # replaceAll ''{{GLOBSTAR}}'' r ?rest" .
    then show ?thesis using True Cons by (simp add: escape_special_Cons)
  next
    case False
    have "replaceAll ''{{GLOBSTAR}}'' r (c # ?rest) = c # replaceAll ''{{GLOBSTAR}}'' r ?rest"
      using second [of c] by (intro replaceAll_step) simp_all
    then show ?thesis using False Cons by (simp add: escape_special_Cons)
  qed
qed

lemma glob_source_prefix_globstar:
  assumes "CHR ''*'' \<notin> set p"
  shows "glob_source (p @ ''/**'') = ''^'' @ escape_special p @ ''/.*$''"
proof -
  let ?e = "escape_special p"
  have ns: "CHR ''*'' \<notin> set ?e" using assms by (rule escape_no_star)
  have tail: "escape_special ''/**'' = ''/**''"
    by (simp add: escape_special_def escaped_chars_def backslash_def)
  have s2: "replaceAll ''**'' ''{{GLOBSTAR}}'' (?e @ ''/**'') = ?e @ ''/{{GLOBSTAR}}''"
  proof -
    have "replaceAll ''**'' ''{{GLOBSTAR}}'' (?e @ ''/**'') = ?e @ replaceAll ''**'' ''{{GLOBSTAR}}'' ''/**''"
      using ns by (intro replaceAll_skip) simp_all
    moreover have "replaceAll ''**'' ''{{GLOBSTAR}}'' ''/**'' = ''/{{GLOBSTAR}}''" by code_simp
    ultimately show ?thesis by simp
  qed
  have s3: "replaceAll ''*'' ''[^/]+'' (?e @ ''/{{GLOBSTAR}}'') = ?e @ ''/{{GLOBSTAR}}''"
    using ns by (intro replaceAll_absent) simp_all
  have s4: "replaceAll ''{{GLOBSTAR}}'' ''.*'' (?e @ ''/{{GLOBSTAR}}'') = ?e @ ''/.*''"
  proof -
    have "replaceAll ''{{GLOBSTAR}}'' ''.*'' (?e @ CHR ''/'' # ''{{GLOBSTAR}}'') =
            ?e @ replaceAll ''{{GLOBSTAR}}'' ''.*'' (CHR ''/'' # ''{{GLOBSTAR}}'')"
      by (rule replace_globstar_skip)
    moreover have "replaceAll ''{{GLOBSTAR}}'' ''.*'' ''/{{GLOBSTAR}}'' = ''/.*''" by code_simp
    ultimately show ?thesis by simp
  qed
  show ?thesis
    by (simp only: glob_source_def Let_def escape_special_append tail s2 s3 s4 append_assoc) simp
qed


lemma parse_terms_Nil: "parse_terms [] = Inr []"
  by (simp add: parse_terms.simps [of "[]"])

lemma parse_terms_Bol: "parse_terms (CHR ''^'' # s) = map_sum id ((#) Bol) (parse_terms s)"
  by (simp add: parse_terms.simps [of "CHR ''^'' # s"])

lemma parse_terms_atom:
  assumes "c \<noteq> CHR ''^''" and "c \<noteq> CHR ''$''" and "parse_atom (c # s) = Inr (a, n)"
      and "parse_quantifier a (drop n s) = (r, k)"
  shows "parse_terms (c # s) = map_sum id ((#) r) (parse_terms (drop (n + k) s))"
  using assms by (simp add: parse_terms.simps [of "c # s"])

lemma escaped_chars_facts:
  "CHR ''^'' \<in> set escaped_chars" "CHR ''$'' \<in> set escaped_chars" "CHR ''['' \<in> set escaped_chars"
  "CHR ''.'' \<in> set escaped_chars" "CHR ''+'' \<in> set escaped_chars" "set ''(){}|]'' \<subseteq> set escaped_chars"
  "backslash \<noteq> CHR ''^''" "backslash \<noteq> CHR ''$''" "\<not> quantifier_char backslash"
  by (auto simp: escaped_chars_def backslash_def quantifier_char_def)

lemma parse_quantifier_none:
  "s \<noteq> [] \<Longrightarrow> \<not> quantifier_char (hd s) \<Longrightarrow> parse_quantifier a s = (a, 0)"
  by (cases s) (simp_all add: parse_quantifier_def)

lemma plain_char:
  assumes "c \<notin> set escaped_chars" and "c \<noteq> CHR ''*''" and "c \<noteq> CHR ''?''"
  shows "\<not> quantifier_char c" and "parse_atom (c # s) = Inr (Lit c, 0)"
    and "c \<noteq> CHR ''^''" and "c \<noteq> CHR ''$''"
proof -
  show q: "\<not> quantifier_char c" using assms escaped_chars_facts(5) by (auto simp: quantifier_char_def)
  show "c \<noteq> CHR ''^''" and "c \<noteq> CHR ''$''" using assms(1) escaped_chars_facts by auto
  have "c \<noteq> backslash" "c \<noteq> CHR ''[''" "c \<noteq> CHR ''.''" "c \<notin> set ''(){}|]''"
    using assms(1) escaped_chars_facts star_not_escaped by auto
  then show "parse_atom (c # s) = Inr (Lit c, 0)" using q by (simp add: parse_atom_def)
qed

lemma escaped_head:
  assumes "CHR ''*'' \<notin> set p" and "CHR ''?'' \<notin> set p" and "s \<noteq> []" and "\<not> quantifier_char (hd s)"
  shows "escape_special p @ s \<noteq> [] \<and> \<not> quantifier_char (hd (escape_special p @ s))"
proof (cases p)
  case Nil
  with assms show ?thesis by (simp add: escape_special_Nil)
next
  case (Cons c cs)
  show ?thesis
  proof (cases "c \<in> set escaped_chars")
    case True
    with Cons show ?thesis by (simp add: escape_special_Cons escaped_chars_facts)
  next
    case False
    then have "\<not> quantifier_char c" using assms(1,2) Cons by (intro plain_char) auto
    with Cons False show ?thesis by (simp add: escape_special_Cons)
  qed
qed

lemma parse_escaped:
  assumes "CHR ''*'' \<notin> set p" and "CHR ''?'' \<notin> set p" and "s \<noteq> []" and "\<not> quantifier_char (hd s)"
  shows "parse_terms (escape_special p @ s) = map_sum id ((@) (map Lit p)) (parse_terms s)"
  using assms(1,2)
proof (induction p)
  case Nil
  show ?case by (cases "parse_terms s") (simp_all add: escape_special_Nil)
next
  case (Cons c p)
  let ?rest = "escape_special p @ s"
  have p: "CHR ''*'' \<notin> set p" "CHR ''?'' \<notin> set p" using Cons.prems by auto
  have head: "?rest \<noteq> []" "\<not> quantifier_char (hd ?rest)"
    using escaped_head [OF p assms(3) assms(4)] by auto
  have ih: "parse_terms ?rest = map_sum id ((@) (map Lit p)) (parse_terms s)"
    using p by (rule Cons.IH)
  show ?case
  proof (cases "c \<in> set escaped_chars")
    case True
    have atom: "parse_atom (backslash # c # ?rest) = Inr (Lit c, 1)"
      using True by (simp add: parse_atom_def)
    have quant: "parse_quantifier (Lit c) (drop 1 (c # ?rest)) = (Lit c, 0)"
      using head by (simp add: parse_quantifier_none)
    have "parse_terms (backslash # c # ?rest) = map_sum id ((#) (Lit c)) (parse_terms (drop (1 + 0) (c # ?rest)))"
      using escaped_chars_facts(7,8) atom quant by (rule parse_terms_atom)
    then show ?thesis
      using True ih by (simp add: escape_special_Cons sum.map_comp comp_def)
  next
    case False
    have c: "c \<noteq> CHR ''*''" "c \<noteq> CHR ''?''" using Cons.prems by auto
    have atom: "parse_atom (c # ?rest) = Inr (Lit c, 0)" using False c by (rule plain_char)
    have quant: "parse_quantifier (Lit c) (drop 0 ?rest) = (Lit c, 0)"
      using head by (simp add: parse_quantifier_none)
    have "parse_terms (c # ?rest) = map_sum id ((#) (Lit c)) (parse_terms (drop (0 + 0) ?rest))"
      using plain_char(3,4) [OF False c] atom quant by (rule parse_terms_atom)
    then show ?thesis
      using False ih by (simp add: escape_special_Cons sum.map_comp comp_def)
  qed
qed

lemma parse_globstar_tail: "parse_terms ''/.*$'' = Inr [Lit CHR ''/'', Star True Dot, Eol]"
  by code_simp

lemma globToRegex_prefix_globstar:
  assumes "CHR ''*'' \<notin> set p" and "CHR ''?'' \<notin> set p"
  shows "globToRegex (p @ ''/**'') = Inr (seq (Bol # map Lit p @ [Lit CHR ''/'', Star True Dot, Eol]))"
proof -
  have "\<not> quantifier_char (hd ''/.*$'')" by (simp add: quantifier_char_def)
  then have "parse_terms (escape_special p @ ''/.*$'') =
          map_sum id ((@) (map Lit p)) (parse_terms ''/.*$'')"
    using assms by (intro parse_escaped) simp_all
  then show ?thesis
    using assms(1)
    by (simp add: globToRegex_def new_RegExp_def glob_source_prefix_globstar parse_terms_Bol
          parse_globstar_tail)
qed


lemma seq_Cons: "seq (a # rs) = Seq a (seq rs)"
  by (simp add: seq_def)

lemma seq_Nil: "seq [] = Eps"
  by (simp add: seq_def)

lemma rm_seq_lits:
  "rm False (seq (map Lit p @ ts)) (i, inp, caps) =
     (if prefix p inp then rm False (seq ts) (i + length p, drop (length p) inp, caps) else [])"
proof (induction p arbitrary: i inp)
  case Nil
  show ?case by simp
next
  case (Cons c p)
  show ?case
  proof (cases inp)
    case Nil
    then show ?thesis by (simp add: seq_Cons)
  next
    case (Cons d ds)
    with Cons.IH [of "Suc i" ds] show ?thesis by (simp add: seq_Cons lit_ok_def)
  qed
qed

lemma exec_Bol_later:
  "0 < i \<Longrightarrow> re_exec_from ic (Seq Bol r) i inp = None"
  by (induction inp arbitrary: i) (simp_all add: re_exec_from.simps [of _ "Seq Bol r"])

lemma test_anchored:
  "re_test ic (seq (Bol # ts)) path = (rm ic (seq ts) (0, path, []) \<noteq> [])"
proof (cases "rm ic (seq ts) (0, path, [])")
  case Nil
  then show ?thesis
    by (cases path)
      (simp_all add: re_test_def re_match_def seq_Cons exec_Bol_later
         re_exec_from.simps [of _ _ 0])
next
  case (Cons st sts)
  then show ?thesis
    by (cases st) (simp add: re_test_def re_match_def seq_Cons re_exec_from.simps [of _ _ 0])
qed

lemma star_dot_reaches_end:
  "length inp \<le> n \<Longrightarrow>
   (\<exists>st \<in> set (star_iter True (rm False Dot) n (i, inp, caps)). fst (snd st) = []) =
     (\<forall>c \<in> set inp. \<not> line_terminator c)"
proof (induction n arbitrary: i inp)
  case 0
  then show ?case by simp
next
  case (Suc n)
  show ?case
  proof (cases inp)
    case Nil
    then show ?thesis by simp
  next
    case (Cons c cs)
    show ?thesis
    proof (cases "line_terminator c")
      case True
      with Cons show ?thesis by simp
    next
      case False
      have "length cs \<le> n" using Suc.prems Cons by simp
      from Suc.IH [OF this, of "Suc i"] False Cons show ?thesis by (simp add: Let_def)
    qed
  qed
qed

lemma rm_globstar_tail:
  "(rm False (seq [Lit CHR ''/'', Star True Dot, Eol]) (i, inp, caps) \<noteq> []) =
     (\<exists>rest. inp = CHR ''/'' # rest \<and> (\<forall>c \<in> set rest. \<not> line_terminator c))"
proof (cases inp)
  case Nil
  then show ?thesis by (simp add: seq_Cons)
next
  case (Cons d ds)
  have "(concat (map (rm False (Seq Eol Eps)) sts) \<noteq> []) = (\<exists>st \<in> set sts. fst (snd st) = [])" for sts
    by (induction sts) auto
  then have "(rm False (seq [Star True Dot, Eol]) (Suc i, ds, caps) \<noteq> []) =
               (\<forall>c \<in> set ds. \<not> line_terminator c)"
    using star_dot_reaches_end [of ds "length ds" "Suc i" caps] by (simp add: seq_Cons seq_Nil)
  then show ?thesis using Cons by (auto simp: seq_Cons [of "Lit CHR ''/''"] lit_ok_def)
qed

lemma glob_test_prefix_globstar:
  assumes "CHR ''*'' \<notin> set p" and "CHR ''?'' \<notin> set p"
  shows "glob_test (p @ ''/**'') path =
           Inr (\<exists>rest. path = p @ CHR ''/'' # rest \<and> (\<forall>c \<in> set rest. \<not> line_terminator c))"
proof -
  let ?tail = "[Lit CHR ''/'', Star True Dot, Eol]"
  have "(rm False (seq (map Lit p @ ?tail)) (0, path, []) \<noteq> []) =
          (prefix p path \<and> rm False (seq ?tail) (length p, drop (length p) path, []) \<noteq> [])"
    by (simp add: rm_seq_lits)
  also have "\<dots> = (prefix p path \<and>
          (\<exists>rest. drop (length p) path = CHR ''/'' # rest \<and> (\<forall>c \<in> set rest. \<not> line_terminator c)))"
    by (simp only: rm_globstar_tail)
  also have "\<dots> = (\<exists>rest. path = p @ CHR ''/'' # rest \<and> (\<forall>c \<in> set rest. \<not> line_terminator c))"
    by (auto simp: prefix_def)
  finally show ?thesis
    by (simp add: glob_test_def globToRegex_prefix_globstar [OF assms] test_anchored)
qed


text \<open>
  Claim C9. For a pattern \<open>p/**\<close> whose prefix \<open>p\<close> is literal (it holds neither \<^verbatim>\<open>*\<close>
  nor \<^verbatim>\<open>?\<close>), the compiled matcher rejects the bare path \<open>p\<close>, accepts \<open>p/\<close>, accepts
  \<open>p/\<close> followed by any remainder without a line terminator (a URL path name has
  none), and accepts nothing that does not begin with \<open>p/\<close>: the two stars match the
  empty remainder only after the slash before them.
\<close>

theorem globstar_needs_slash:
  assumes "CHR ''*'' \<notin> set p" and "CHR ''?'' \<notin> set p"
  shows "glob_test (p @ ''/**'') p = Inr False \<and>
         glob_test (p @ ''/**'') (p @ ''/'') = Inr True \<and>
         (\<forall>rest. (\<forall>c \<in> set rest. \<not> line_terminator c) \<longrightarrow>
            glob_test (p @ ''/**'') (p @ ''/'' @ rest) = Inr True) \<and>
         (\<forall>path. glob_test (p @ ''/**'') path = Inr True \<longrightarrow> prefix (p @ ''/'') path)"
proof (intro conjI allI impI)
  show "glob_test (p @ ''/**'') p = Inr False"
    by (simp add: glob_test_prefix_globstar [OF assms])
  show "glob_test (p @ ''/**'') (p @ ''/'') = Inr True"
    by (simp add: glob_test_prefix_globstar [OF assms])
next
  fix rest assume "\<forall>c \<in> set rest. \<not> line_terminator c"
  then show "glob_test (p @ ''/**'') (p @ ''/'' @ rest) = Inr True"
    by (simp add: glob_test_prefix_globstar [OF assms])
next
  fix path assume "glob_test (p @ ''/**'') path = Inr True"
  then obtain rest where "path = p @ CHR ''/'' # rest"
    by (auto simp: glob_test_prefix_globstar [OF assms])
  then show "prefix (p @ ''/'') path" by (simp add: prefix_def)
qed

theorem globstar_needs_slash_witness:
  "CHR ''*'' \<notin> set ''/docs'' \<and> CHR ''?'' \<notin> set ''/docs'' \<and>
   list_all (\<lambda>c. \<not> line_terminator c) ''a/b/c'' \<and>
   glob_test ''/docs/**'' ''/docs'' = Inr False \<and>
   glob_test ''/docs/**'' ''/docs/'' = Inr True \<and>
   glob_test ''/docs/**'' ''/docs/a/b/c'' = Inr True \<and>
   findMatchingRule ''/docs'' [local_docs_rule] = Inr None \<and>
   findMatchingRule ''/docs/'' [local_docs_rule] = Inr (Some local_docs_rule)"
proof -
  have p: "CHR ''*'' \<notin> set ''/docs''" "CHR ''?'' \<notin> set ''/docs''" by simp_all
  have r: "\<forall>c \<in> set ''a/b/c''. \<not> line_terminator c" by (simp add: line_terminator_def code_def)
  have g: "glob_test ''/docs/**'' ''/docs'' = Inr False" "glob_test ''/docs/**'' ''/docs/'' = Inr True"
    "glob_test ''/docs/**'' ''/docs/a/b/c'' = Inr True"
    using globstar_needs_slash [OF p] r by auto
  have "findMatchingRule path [local_docs_rule] =
          (case glob_test ''/docs/**'' path of Inl e \<Rightarrow> Inl e
           | Inr b \<Rightarrow> if b then Inr (Some local_docs_rule) else Inr None)" for path
    by (cases "globToRegex ''/docs/**''") (simp_all add: local_docs_rule_def glob_test_def)
  then show ?thesis using p r g by (simp add: line_terminator_def code_def)
qed

lemma glob_examples:
  "glob_test ''/products/*'' ''/products/a/b'' = Inr False"
  "glob_test ''/products/*'' ''/products/a'' = Inr True"
  "glob_test ''/products/*'' ''/products/'' = Inr False"
  "glob_test ''/docs/**'' ''/docs/a/b/c'' = Inr True"
  "glob_test ''/pricing'' ''/pricing/x'' = Inr False"
  "glob_test ''/pricing'' ''/x/pricing'' = Inr False"
  "glob_test ''/a.b'' ''/axb'' = Inr False"
  by code_simp+

text \<open>
  Claim C4 fails on the code: \<^verbatim>\<open>globToRegex\<close> does not escape \<^verbatim>\<open>?\<close>, so a question mark
  in a pattern is a quantifier of the regular expression. The pattern \<^verbatim>\<open>/ab?\<close> becomes
  \<^verbatim>\<open>^/ab?$\<close>: it matches the paths \<^verbatim>\<open>/a\<close> and \<^verbatim>\<open>/ab\<close>, which it does not describe, and
  not the path \<^verbatim>\<open>/ab?\<close>; a pattern that begins with \<^verbatim>\<open>?\<close> makes the constructor throw.
\<close>

theorem globToRegex_question_mark:
  "glob_source ''/ab?'' = ''^/ab?$'' \<and>
   glob_test ''/ab?'' ''/a'' = Inr True \<and>
   glob_test ''/ab?'' ''/ab'' = Inr True \<and>
   glob_test ''/ab?'' ''/ab?'' = Inr False \<and>
   glob_test ''?a'' ''?a'' = Inl (Exn ''SyntaxError: nothing to repeat'')"
  by code_simp

section \<open>Proofs: the page type detector\<close>

lemma first_url_pattern_result:
  "first_url_pattern table path = Some r \<Longrightarrow>
   result_confidence r = Medium \<and> result_source r = UrlPattern"
  by (induction table path rule: first_url_pattern.induct) (auto split: if_splits)

lemma detectFromUrl_result:
  "detectFromUrl path = Some r \<Longrightarrow> result_confidence r = Medium \<and> result_source r = UrlPattern"
  unfolding detectFromUrl_def by (rule first_url_pattern_result)

lemma detectFromMeta_result:
  "detectFromMeta html = Some r \<Longrightarrow> result_confidence r = High \<and> result_source r = MetaTag"
  by (auto simp: detectFromMeta_def Let_def split: if_splits)

lemma detectFromContent_result:
  "detectFromContent html = Some r \<Longrightarrow> result_source r = ContentHeuristic"
  by (auto simp: detectFromContent_def Let_def split: if_splits)

text \<open>
  Claim C5. When rule matching returns, \<^verbatim>\<open>detectPageType\<close> returns the result of the
  first tier that is satisfied, in the order rule, URL pattern, meta tag, content
  heuristic, default. The first matching rule with a \<^verbatim>\<open>pageType\<close> gives that page type
  with confidence high and the rule as source, whatever the path and the HTML say to
  the later tiers; a URL-pattern hit has confidence medium; a meta-tag hit has
  confidence high; with no tier satisfied the result is generic, low, default.
\<close>

theorem detectPageType_first_tier:
  assumes "findMatchingRule path geoRules = Inr matchingRule"
  shows
    "(\<forall>pt. rule_pageType matchingRule = Some pt \<longrightarrow>
        detectPageType path html geoRules =
          Inr \<lparr>result_pageType = pt, result_confidence = High, result_source = GeoRule\<rparr>) \<and>
     (\<forall>u. rule_pageType matchingRule = None \<and> detectFromUrl path = Some u \<longrightarrow>
        detectPageType path html geoRules = Inr u \<and>
        result_confidence u = Medium \<and> result_source u = UrlPattern) \<and>
     (\<forall>m. rule_pageType matchingRule = None \<and> detectFromUrl path = None \<and>
          detectFromMeta html = Some m \<longrightarrow>
        detectPageType path html geoRules = Inr m \<and>
        result_confidence m = High \<and> result_source m = MetaTag) \<and>
     (\<forall>c. rule_pageType matchingRule = None \<and> detectFromUrl path = None \<and>
          detectFromMeta html = None \<and> detectFromContent html = Some c \<longrightarrow>
        detectPageType path html geoRules = Inr c \<and> result_source c = ContentHeuristic) \<and>
     (rule_pageType matchingRule = None \<and> detectFromUrl path = None \<and>
      detectFromMeta html = None \<and> detectFromContent html = None \<longrightarrow>
        detectPageType path html geoRules =
          Inr \<lparr>result_pageType = Generic, result_confidence = Low, result_source = Default\<rparr>)"
proof (intro conjI allI impI)
  fix pt assume "rule_pageType matchingRule = Some pt"
  then show "detectPageType path html geoRules =
      Inr \<lparr>result_pageType = pt, result_confidence = High, result_source = GeoRule\<rparr>"
    using assms by (simp add: detectPageType_def)
next
  fix u assume u: "rule_pageType matchingRule = None \<and> detectFromUrl path = Some u"
  then show "detectPageType path html geoRules = Inr u"
    using assms by (simp add: detectPageType_def)
  show "result_confidence u = Medium" "result_source u = UrlPattern"
    using u detectFromUrl_result by blast+
next
  fix m assume m: "rule_pageType matchingRule = None \<and> detectFromUrl path = None \<and>
                   detectFromMeta html = Some m"
  then show "detectPageType path html geoRules = Inr m"
    using assms by (simp add: detectPageType_def)
  show "result_confidence m = High" "result_source m = MetaTag"
    using m detectFromMeta_result by blast+
next
  fix c assume c: "rule_pageType matchingRule = None \<and> detectFromUrl path = None \<and>
                   detectFromMeta html = None \<and> detectFromContent html = Some c"
  then show "detectPageType path html geoRules = Inr c"
    using assms by (simp add: detectPageType_def)
  show "result_source c = ContentHeuristic"
    using c detectFromContent_result by blast
next
  assume "rule_pageType matchingRule = None \<and> detectFromUrl path = None \<and>
          detectFromMeta html = None \<and> detectFromContent html = None"
  then show "detectPageType path html geoRules =
      Inr \<lparr>result_pageType = Generic, result_confidence = Low, result_source = Default\<rparr>"
    using assms by (simp add: detectPageType_def)
qed

theorem detectPageType_first_tier_witness:
  "findMatchingRule ''/blog/post'' [local_products_rule, local_docs_rule] = Inr None \<and>
   detectFromUrl ''/blog/post'' =
     Some \<lparr>result_pageType = Article, result_confidence = Medium, result_source = UrlPattern\<rparr> \<and>
   detectPageType ''/blog/post'' product_meta_html [local_products_rule, local_docs_rule] =
     Inr \<lparr>result_pageType = Article, result_confidence = Medium, result_source = UrlPattern\<rparr> \<and>
   findMatchingRule ''/docs/blog/x'' [local_products_rule, local_docs_rule] = Inr (Some local_docs_rule) \<and>
   detectPageType ''/docs/blog/x'' product_meta_html [local_products_rule, local_docs_rule] =
     Inr \<lparr>result_pageType = Docs, result_confidence = High, result_source = GeoRule\<rparr> \<and>
   detectFromMeta product_meta_html =
     Some \<lparr>result_pageType = Product, result_confidence = High, result_source = MetaTag\<rparr> \<and>
   detectPageType ''/about'' product_meta_html [] =
     Inr \<lparr>result_pageType = Product, result_confidence = High, result_source = MetaTag\<rparr> \<and>
   detectPageType ''/about'' [] [] =
     Inr \<lparr>result_pageType = Generic, result_confidence = Low, result_source = Default\<rparr>"
proof -
  let ?rules = "[local_products_rule, local_docs_rule]"
  have r1: "findMatchingRule ''/blog/post'' ?rules = Inr None" by code_simp
  have r2: "findMatchingRule ''/docs/blog/x'' ?rules = Inr (Some local_docs_rule)" by code_simp
  have r3: "findMatchingRule ''/about'' [] = Inr None" by simp
  have u1: "detectFromUrl ''/blog/post'' =
     Some \<lparr>result_pageType = Article, result_confidence = Medium, result_source = UrlPattern\<rparr>"
    by code_simp
  have u3: "detectFromUrl ''/about'' = None" by code_simp
  have m3: "detectFromMeta product_meta_html =
     Some \<lparr>result_pageType = Product, result_confidence = High, result_source = MetaTag\<rparr>"
    by code_simp
  have m4: "detectFromMeta [] = None" and c4: "detectFromContent [] = None" by code_simp+
  have p2: "rule_pageType (Some local_docs_rule) = Some Docs"
    by (simp add: rule_pageType_def local_docs_rule_def)
  have p0: "rule_pageType None = None" by (simp add: rule_pageType_def)
  show ?thesis
    using detectPageType_first_tier [OF r1, of product_meta_html]
      detectPageType_first_tier [OF r2, of product_meta_html]
      detectPageType_first_tier [OF r3, of product_meta_html]
      detectPageType_first_tier [OF r3, of "[]"]
      r1 r2 u1 u3 m3 m4 c4 p2 p0
    by simp
qed

section \<open>Proofs: the summary generator\<close>

lemma passes_Some: "passes v test = Some s \<longleftrightarrow> v = Some s \<and> s \<noteq> [] \<and> test s"
  by (cases v) (auto simp: passes_def)

lemma passes_None: "passes v test = None \<longleftrightarrow> (\<forall>s. v = Some s \<longrightarrow> s = [] \<or> \<not> test s)"
  by (cases v) (auto simp: passes_def)

lemma first_long_paragraph_find:
  "first_long_paragraph ps =
     map_option (\<lambda>p. take 300 (trim (stripHtml p))) (find (\<lambda>p. 50 \<le> length (trim (stripHtml p))) ps)"
  by (induction ps) (simp_all add: Let_def)

lemma extractFirstParagraph_nonempty: "extractFirstParagraph html = Some p \<Longrightarrow> p \<noteq> []"
  by (auto simp: extractFirstParagraph_def first_long_paragraph_find find_Some_iff
        split: option.splits)

text \<open>
  Claim C6, as the code has it. \<^verbatim>\<open>extractSummary\<close> returns the summary of the rule
  whenever the rule has a non-empty one, with no other condition. Otherwise it returns
  the meta description when that has at least 30 characters; otherwise the
  \<^verbatim>\<open>og:description\<close> when that has at least 30; otherwise what
  \<^verbatim>\<open>extractFirstParagraph\<close> returns, with no further test; otherwise null. And
  \<^verbatim>\<open>extractFirstParagraph\<close> returns the first paragraph whose stripped text has at least
  50 characters, cut to 300.
\<close>

theorem extractSummary_priority:
  "(\<forall>s. rule_summary rule = Some s \<and> s \<noteq> [] \<longrightarrow>
      extractSummary html rule = Some \<lparr>summary_text = s, summary_source = Custom\<rparr>) \<and>
   ((rule_summary rule = None \<or> rule_summary rule = Some []) \<longrightarrow>
      (\<forall>d. extractMetaDescription html = Some d \<and> 30 \<le> length d \<longrightarrow>
         extractSummary html rule = Some \<lparr>summary_text = d, summary_source = MetaDescription\<rparr>) \<and>
      ((\<forall>d. extractMetaDescription html = Some d \<longrightarrow> length d < 30) \<longrightarrow>
         (\<forall>g. extractOgDescription html = Some g \<and> 30 \<le> length g \<longrightarrow>
            extractSummary html rule = Some \<lparr>summary_text = g, summary_source = OgDescription\<rparr>) \<and>
         ((\<forall>g. extractOgDescription html = Some g \<longrightarrow> length g < 30) \<longrightarrow>
            (\<forall>p. extractFirstParagraph html = Some p \<longrightarrow>
               extractSummary html rule = Some \<lparr>summary_text = p, summary_source = FirstParagraph\<rparr>) \<and>
            (extractFirstParagraph html = None \<longrightarrow> extractSummary html rule = None)))) \<and>
   extractFirstParagraph html =
     map_option (\<lambda>p. take 300 (trim (stripHtml p)))
       (find (\<lambda>p. 50 \<le> length (trim (stripHtml p)))
          (case match_global True paragraph_re html of None \<Rightarrow> [] | Some ps \<Rightarrow> ps))"
proof (intro conjI allI impI)
  fix s assume "rule_summary rule = Some s \<and> s \<noteq> []"
  then have "passes (rule_summary rule) (\<lambda>s. True) = Some s" by (simp add: passes_Some)
  then show "extractSummary html rule = Some \<lparr>summary_text = s, summary_source = Custom\<rparr>"
    by (simp add: extractSummary_def)
next
  assume "rule_summary rule = None \<or> rule_summary rule = Some []"
  then have no_rule: "passes (rule_summary rule) (\<lambda>s. True) = None" by (auto simp: passes_def)
  {
    fix d assume "extractMetaDescription html = Some d \<and> 30 \<le> length d"
    then have "passes (extractMetaDescription html) (\<lambda>metaDesc. 30 \<le> length metaDesc) = Some d"
      by (auto simp: passes_Some)
    then show "extractSummary html rule = Some \<lparr>summary_text = d, summary_source = MetaDescription\<rparr>"
      using no_rule by (simp add: extractSummary_def)
  }
  assume "\<forall>d. extractMetaDescription html = Some d \<longrightarrow> length d < 30"
  then have no_meta: "passes (extractMetaDescription html) (\<lambda>metaDesc. 30 \<le> length metaDesc) = None"
    by (auto simp: passes_None)
  {
    fix g assume "extractOgDescription html = Some g \<and> 30 \<le> length g"
    then have "passes (extractOgDescription html) (\<lambda>ogDesc. 30 \<le> length ogDesc) = Some g"
      by (auto simp: passes_Some)
    then show "extractSummary html rule = Some \<lparr>summary_text = g, summary_source = OgDescription\<rparr>"
      using no_rule no_meta by (simp add: extractSummary_def)
  }
  assume "\<forall>g. extractOgDescription html = Some g \<longrightarrow> length g < 30"
  then have no_og: "passes (extractOgDescription html) (\<lambda>ogDesc. 30 \<le> length ogDesc) = None"
    by (auto simp: passes_None)
  {
    fix p assume p: "extractFirstParagraph html = Some p"
    then have "passes (extractFirstParagraph html) (\<lambda>s. True) = Some p"
      using extractFirstParagraph_nonempty [OF p] by (simp add: passes_Some)
    then show "extractSummary html rule = Some \<lparr>summary_text = p, summary_source = FirstParagraph\<rparr>"
      using no_rule no_meta no_og by (simp add: extractSummary_def)
  }
  assume "extractFirstParagraph html = None"
  then show "extractSummary html rule = None"
    using no_rule no_meta no_og by (simp add: extractSummary_def passes_def)
next
  show "extractFirstParagraph html =
     map_option (\<lambda>p. take 300 (trim (stripHtml p)))
       (find (\<lambda>p. 50 \<le> length (trim (stripHtml p)))
          (case match_global True paragraph_re html of None \<Rightarrow> [] | Some ps \<Rightarrow> ps))"
    by (simp add: extractFirstParagraph_def first_long_paragraph_find split: option.splits)
qed

theorem extractSummary_priority_witness:
  "rule_summary (Some remote_products_rule) = Some ''Dashboard summary'' \<and>
   extractSummary [] (Some remote_products_rule) =
     Some \<lparr>summary_text = ''Dashboard summary'', summary_source = Custom\<rparr> \<and>
   rule_summary None = None \<and>
   extractMetaDescription [] = None \<and> extractOgDescription [] = None \<and>
   extractFirstParagraph [] = None \<and>
   extractSummary [] None = None"
proof -
  have r: "rule_summary (Some remote_products_rule) = Some ''Dashboard summary''"
    by (simp add: rule_summary_def remote_products_rule_def)
  have n: "rule_summary None = None" by (simp add: rule_summary_def)
  have m: "extractMetaDescription [] = None" by code_simp
  have g: "extractOgDescription [] = None" by code_simp
  have p: "extractFirstParagraph [] = None" by code_simp
  show ?thesis
    using extractSummary_priority [of "Some remote_products_rule" "[]"]
      extractSummary_priority [of None "[]"] r n m g p
    by simp
qed

theorem extractSummary_empty_rule_summary_counterexample:
  "rule_summary (Some empty_summary_rule) = Some [] \<and>
   extractSummary [] (Some empty_summary_rule) = None \<and>
   extractSummary [] (Some empty_summary_rule) \<noteq>
     Some \<lparr>summary_text = [], summary_source = Custom\<rparr>"
proof -
  have "extractSummary [] (Some empty_summary_rule) = None" by code_simp
  then show ?thesis by (simp add: rule_summary_def empty_summary_rule_def)
qed

section \<open>Proofs: the text branch of the GEO engine\<close>

lemma frontmatterLines_page_type:
  "''botmon:page_type: '' @ page_type_str pt \<in> set (frontmatterLines config url_href matchingRule pt)"
  unfolding frontmatterLines_def set_append Un_iff
  by (rule disjI2, rule disjI1, rule list.set_intros(1))

lemma frontmatterLines_nonempty: "frontmatterLines config url_href matchingRule pt \<noteq> []"
  by (simp add: frontmatterLines_def)

lemma headers_get_set: "headers_get (headers_set hname v hs) hname = Some v"
  by (simp add: headers_get_def headers_set_def same_header_def)

lemma headers_get_set_other:
  "toLowerCase hname' \<noteq> toLowerCase hname \<Longrightarrow>
   headers_get (headers_set hname' v' (headers_set hname v hs)) hname = Some v"
proof -
  assume ne: "toLowerCase hname' \<noteq> toLowerCase hname"
  have "filter (same_header hname) (headers_set hname' v' (headers_set hname v hs)) =
        filter (same_header hname)
          (filter (\<lambda>e. \<not> same_header hname' e) (filter (\<lambda>e. \<not> same_header hname e) hs)) @
        [(hname, v)]"
    using ne by (simp add: headers_set_def same_header_def)
  also have "filter (same_header hname)
          (filter (\<lambda>e. \<not> same_header hname' e) (filter (\<lambda>e. \<not> same_header hname e) hs)) = []"
    by (auto simp: filter_empty_conv)
  finally show ?thesis by (simp add: headers_get_def)
qed

lemma headers_get_append_other:
  "toLowerCase hname' \<noteq> toLowerCase hname \<Longrightarrow>
   headers_get (hs @ [(hname', v')]) hname = headers_get hs hname"
  by (simp add: headers_get_def same_header_def)

lemma headers_get_default_content_type:
  "toLowerCase ''content-type'' \<noteq> toLowerCase hname \<Longrightarrow>
   headers_get (if headers_get hs ''Content-Type'' = None
                then hs @ [(''content-type'', ''text/plain;charset=UTF-8'')] else hs) hname =
     headers_get hs hname"
  by (simp add: headers_get_append_other)

lemma detectPageType_returns:
  "findMatchingRule path geoRules = Inr matchingRule \<Longrightarrow> \<exists>r. detectPageType path html geoRules = Inr r"
  by (simp add: detectPageType_def split: option.splits)

lemma new_Response_returns:
  "200 \<le> s \<Longrightarrow> s \<le> 599 \<Longrightarrow> \<not> null_body_status s \<Longrightarrow>
   new_Response b s hs =
     Inr \<lparr>status = s,
          headers = (if headers_get hs ''Content-Type'' = None
                     then hs @ [(''content-type'', ''text/plain;charset=UTF-8'')] else hs),
          body = Some b, bodyUsed = False\<rparr>"
  by (simp add: new_Response_def)

lemma new_Response_throws:
  "s < 200 \<or> 599 < s \<or> null_body_status s \<Longrightarrow> \<exists>e. new_Response b s hs = Inl e"
  by (auto simp: new_Response_def)

text \<open>
  With a status that cannot carry a body, or one outside 200 to 599, \<^verbatim>\<open>applyTextGeo\<close>
  throws whenever it gets as far as building a response, also for a disabled rule.
\<close>

lemma applyTextGeo_throws_for_status:
  assumes "response_text resp = (Inr contents, origin)"
    and "findMatchingRule (pathname ctx) (rules config) = Inr matchingRule"
    and "status resp < 200 \<or> 599 < status resp \<or> null_body_status (status resp)"
  shows "\<exists>e. applyTextGeo resp ctx config = (Inl e, origin)"
proof -
  obtain r where r: "detectPageType (pathname ctx) [] (rules config) = Inr r"
    using detectPageType_returns [OF assms(2), of "[]"] by auto
  have ne: "frontmatterLines config (href ctx) matchingRule (result_pageType r) \<noteq> []"
    by (rule frontmatterLines_nonempty)
  have t: "\<exists>e. new_Response b (status resp) hs = Inl e" for b hs
    by (rule new_Response_throws [OF assms(3)])
  show ?thesis
  proof (cases "rule_disabled matchingRule")
    case True
    obtain e where "new_Response contents (status resp) (headers resp) = Inl e" using t by blast
    then show ?thesis using assms(1,2) True by (simp add: applyTextGeo_def)
  next
    case False
    let ?b = "''---'' @ [CHR 0x0A] @
              join [CHR 0x0A] (frontmatterLines config (href ctx) matchingRule (result_pageType r)) @
              [CHR 0x0A] @ ''---'' @ [CHR 0x0A, CHR 0x0A] @ contents"
    let ?hs = "headers_set ''X-BotMon-PageType'' (page_type_str (result_pageType r))
                 (headers_set ''X-BotMon-GEO'' ''applied'' (headers resp))"
    obtain e where "new_Response ?b (status resp) ?hs = Inl e" using t by blast
    then show ?thesis using assms(1,2) False r ne by (simp add: applyTextGeo_def Let_def)
  qed
qed

text \<open>
  Claim C10, as the code has it. When the body of the response can be read, every rule
  pattern compiles, so that \<^verbatim>\<open>findMatchingRule\<close> returns, the matching rule, if any, is
  not disabled, and the status of the response is one that \<^verbatim>\<open>new Response\<close> accepts
  with a body (200 to 599, and not 204, 205 or 304), \<^verbatim>\<open>applyTextGeo\<close> returns
  \<^verbatim>\<open>modified: true\<close> whatever \<^verbatim>\<open>injectSummary\<close> and \<^verbatim>\<open>injectJsonLd\<close> are. The new
  response has the status of the one given and an unread body: the frontmatter between
  two \<^verbatim>\<open>---\<close> lines, an empty line, then the text that was read. The frontmatter has
  the line \<^verbatim>\<open>botmon:page_type\<close> with the detected page type and is never empty, so the
  early return for an empty frontmatter is not taken; and the headers \<^verbatim>\<open>X-BotMon-GEO\<close>
  and \<^verbatim>\<open>X-BotMon-PageType\<close> read \<^verbatim>\<open>applied\<close> and the page type. The response that was
  given is left with its body read.
\<close>

theorem applyTextGeo_always_modifies:
  assumes "response_text resp = (Inr contents, origin)"
    and "findMatchingRule (pathname ctx) (rules config) = Inr matchingRule"
    and "\<not> rule_disabled matchingRule"
    and "200 \<le> status resp" and "status resp \<le> 599" and "\<not> null_body_status (status resp)"
  shows "\<exists>r fm hs.
           detectPageType (pathname ctx) [] (rules config) = Inr r \<and>
           fm = frontmatterLines config (href ctx) matchingRule (result_pageType r) \<and>
           fm \<noteq> [] \<and>
           ''botmon:page_type: '' @ page_type_str (result_pageType r) \<in> set fm \<and>
           applyTextGeo resp ctx config =
             (Inr \<lparr>modified = True,
                   geo_response =
                     \<lparr>status = status resp, headers = hs,
                      body = Some (''---'' @ [CHR 0x0A] @ join [CHR 0x0A] fm @ [CHR 0x0A] @ ''---'' @
                                   [CHR 0x0A, CHR 0x0A] @ contents),
                      bodyUsed = False\<rparr>,
                   geo_pageType = Some (result_pageType r)\<rparr>,
              origin) \<and>
           headers_get hs ''X-BotMon-GEO'' = Some ''applied'' \<and>
           headers_get hs ''X-BotMon-PageType'' = Some (page_type_str (result_pageType r))"
proof -
  obtain r where r: "detectPageType (pathname ctx) [] (rules config) = Inr r"
    using detectPageType_returns [OF assms(2), of "[]"] by auto
  let ?fm = "frontmatterLines config (href ctx) matchingRule (result_pageType r)"
  let ?set = "headers_set ''X-BotMon-PageType'' (page_type_str (result_pageType r))
                (headers_set ''X-BotMon-GEO'' ''applied'' (headers resp))"
  let ?hs = "if headers_get ?set ''Content-Type'' = None
             then ?set @ [(''content-type'', ''text/plain;charset=UTF-8'')] else ?set"
  let ?b = "''---'' @ [CHR 0x0A] @ join [CHR 0x0A] ?fm @ [CHR 0x0A] @ ''---'' @
            [CHR 0x0A, CHR 0x0A] @ contents"
  have ne: "?fm \<noteq> []" by (rule frontmatterLines_nonempty)
  have pt: "''botmon:page_type: '' @ page_type_str (result_pageType r) \<in> set ?fm"
    by (rule frontmatterLines_page_type)
  have new: "new_Response ?b (status resp) ?set =
               Inr \<lparr>status = status resp, headers = ?hs, body = Some ?b, bodyUsed = False\<rparr>"
    by (rule new_Response_returns [OF assms(4) assms(5) assms(6)])
  have run: "applyTextGeo resp ctx config =
             (Inr \<lparr>modified = True,
                   geo_response =
                     \<lparr>status = status resp, headers = ?hs, body = Some ?b, bodyUsed = False\<rparr>,
                   geo_pageType = Some (result_pageType r)\<rparr>,
              origin)"
    using assms(1,2,3) r ne new by (simp add: applyTextGeo_def Let_def)
  have neq: "toLowerCase ''X-BotMon-PageType'' \<noteq> toLowerCase ''X-BotMon-GEO''" by code_simp
  have c1: "toLowerCase ''content-type'' \<noteq> toLowerCase ''X-BotMon-GEO''" by code_simp
  have c2: "toLowerCase ''content-type'' \<noteq> toLowerCase ''X-BotMon-PageType''" by code_simp
  have h1: "headers_get ?hs ''X-BotMon-GEO'' = Some ''applied''"
    unfolding headers_get_default_content_type [OF c1] by (rule headers_get_set_other [OF neq])
  have h2: "headers_get ?hs ''X-BotMon-PageType'' = Some (page_type_str (result_pageType r))"
    unfolding headers_get_default_content_type [OF c2] by (rule headers_get_set)
  from r ne pt run h1 h2 show ?thesis by blast
qed

theorem applyTextGeo_always_modifies_witness:
  "response_text markdown_response = (Inr ''# Intro'', markdown_response\<lparr>bodyUsed := True\<rparr>) \<and>
   findMatchingRule (pathname docs_request) (rules bare_geo) = Inr (Some local_docs_rule) \<and>
   \<not> rule_disabled (Some local_docs_rule) \<and>
   200 \<le> status markdown_response \<and> status markdown_response \<le> 599 \<and>
   \<not> null_body_status (status markdown_response) \<and>
   injectSummary bare_geo = False \<and> injectJsonLd bare_geo = False \<and>
   applyTextGeo markdown_response docs_request bare_geo =
     (Inr \<lparr>modified = True,
           geo_response =
             \<lparr>status = 200,
              headers = [(''content-type'', ''text/markdown''), (''X-BotMon-GEO'', ''applied''),
                         (''X-BotMon-PageType'', ''docs'')],
              body = Some (''---'' @ [CHR 0x0A] @ ''botmon:page_type: docs'' @ [CHR 0x0A] @ ''---'' @
                           [CHR 0x0A, CHR 0x0A] @ ''# Intro''),
              bodyUsed = False\<rparr>,
           geo_pageType = Some Docs\<rparr>,
      markdown_response\<lparr>bodyUsed := True\<rparr>)"
proof -
  have t: "response_text markdown_response = (Inr ''# Intro'', markdown_response\<lparr>bodyUsed := True\<rparr>)"
    by (simp add: response_text_def markdown_response_def)
  have f: "findMatchingRule (pathname docs_request) (rules bare_geo) = Inr (Some local_docs_rule)"
    by code_simp
  have d: "\<not> rule_disabled (Some local_docs_rule)"
    by (simp add: rule_disabled_def local_docs_rule_def)
  have s1: "200 \<le> status markdown_response" and s2: "status markdown_response \<le> 599"
    and s3: "\<not> null_body_status (status markdown_response)"
    by (simp_all add: markdown_response_def null_body_status_def)
  have dp: "detectPageType (pathname docs_request) [] (rules bare_geo) =
            Inr \<lparr>result_pageType = Docs, result_confidence = High, result_source = GeoRule\<rparr>"
    by code_simp
  have fl: "frontmatterLines bare_geo (href docs_request) (Some local_docs_rule) Docs =
            [''botmon:page_type: docs'']"
    by code_simp
  obtain r hs where r: "detectPageType (pathname docs_request) [] (rules bare_geo) = Inr r"
    and run: "applyTextGeo markdown_response docs_request bare_geo =
      (Inr \<lparr>modified = True,
            geo_response =
              \<lparr>status = status markdown_response, headers = hs,
               body = Some (''---'' @ [CHR 0x0A] @
                      join [CHR 0x0A]
                        (frontmatterLines bare_geo (href docs_request) (Some local_docs_rule)
                           (result_pageType r)) @
                      [CHR 0x0A] @ ''---'' @ [CHR 0x0A, CHR 0x0A] @ ''# Intro''),
               bodyUsed = False\<rparr>,
            geo_pageType = Some (result_pageType r)\<rparr>,
       markdown_response\<lparr>bodyUsed := True\<rparr>)"
    using applyTextGeo_always_modifies [OF t f d s1 s2 s3] by blast
  from r dp have pt: "result_pageType r = Docs" by auto
  have direct: "headers (geo_response (projr (fst (applyTextGeo markdown_response docs_request bare_geo)))) =
            [(''content-type'', ''text/markdown''), (''X-BotMon-GEO'', ''applied''),
             (''X-BotMon-PageType'', ''docs'')]"
    by code_simp
  have hs: "hs = [(''content-type'', ''text/markdown''), (''X-BotMon-GEO'', ''applied''),
                  (''X-BotMon-PageType'', ''docs'')]"
    using direct unfolding run by simp
  have "applyTextGeo markdown_response docs_request bare_geo =
     (Inr \<lparr>modified = True,
           geo_response =
             \<lparr>status = 200,
              headers = [(''content-type'', ''text/markdown''), (''X-BotMon-GEO'', ''applied''),
                         (''X-BotMon-PageType'', ''docs'')],
              body = Some (''---'' @ [CHR 0x0A] @ ''botmon:page_type: docs'' @ [CHR 0x0A] @ ''---'' @
                           [CHR 0x0A, CHR 0x0A] @ ''# Intro''),
              bodyUsed = False\<rparr>,
           geo_pageType = Some Docs\<rparr>,
      markdown_response\<lparr>bodyUsed := True\<rparr>)"
    unfolding run pt fl hs by (simp add: markdown_response_def)
  with t f d s1 s2 s3 show ?thesis by (simp add: bare_geo_def)
qed

theorem applyTextGeo_null_body_status_counterexample:
  "status not_modified_response = 304 \<and>
   headers_get (headers not_modified_response) ''Content-Type'' = Some ''text/markdown'' \<and>
   response_text not_modified_response = (Inr [], not_modified_response) \<and>
   findMatchingRule (pathname docs_request) (rules bare_geo) = Inr (Some local_docs_rule) \<and>
   rule_disabled (Some local_docs_rule) = False \<and>
   applyTextGeo not_modified_response docs_request bare_geo =
     (Inl (Exn ''TypeError: null body status''), not_modified_response)"
proof -
  have t: "response_text not_modified_response = (Inr [], not_modified_response)"
    by (simp add: response_text_def not_modified_response_def)
  have h: "headers_get (headers not_modified_response) ''Content-Type'' = Some ''text/markdown''"
    by code_simp
  have f: "findMatchingRule (pathname docs_request) (rules bare_geo) = Inr (Some local_docs_rule)"
    by code_simp
  have d: "rule_disabled (Some local_docs_rule) = False"
    by (simp add: rule_disabled_def local_docs_rule_def)
  have dp: "detectPageType (pathname docs_request) [] (rules bare_geo) =
            Inr \<lparr>result_pageType = Docs, result_confidence = High, result_source = GeoRule\<rparr>"
    by code_simp
  have fl: "frontmatterLines bare_geo (href docs_request) (Some local_docs_rule) Docs =
            [''botmon:page_type: docs'']"
    by code_simp
  have new: "new_Response b (status not_modified_response) hs = Inl (Exn ''TypeError: null body status'')"
    for b hs
    by (simp add: new_Response_def not_modified_response_def null_body_status_def)
  have "applyTextGeo not_modified_response docs_request bare_geo =
          (Inl (Exn ''TypeError: null body status''), not_modified_response)"
    using t f d dp fl new by (simp add: applyTextGeo_def Let_def)
  with t h f d show ?thesis by (simp add: not_modified_response_def)
qed

section \<open>Proofs: the pipeline orchestrator\<close>

lemma run_stages_returns: "\<exists>r. run_stages ss ctx cfg f log = Inr r"
proof (induction ss arbitrary: ctx log)
  case Nil
  show ?case by simp
next
  case (Cons stage rest)
  obtain outcome origin where run: "run stage ctx cfg f = (outcome, origin)"
    by (cases "run stage ctx cfg f")
  show ?case
  proof (cases outcome)
    case (Inl e)
    with run Cons show ?thesis by simp
  next
    case (Inr result)
    with run Cons show ?thesis by (cases "sr_response result") auto
  qed
qed

text \<open>\<^verbatim>\<open>runPipeline\<close> returns a result whatever the handlers do: no error leaves it.\<close>

lemma runPipeline_never_throws: "\<exists>out. runPipeline hs ctx cfg f = Inr out"
proof -
  obtain r where loop: "run_stages (stages hs) ctx cfg f [] = Inr r"
    using run_stages_returns [of "stages hs" ctx cfg f "[]"] by blast
  show ?thesis
  proof (cases r)
    case (Inl res)
    with loop show ?thesis by (simp add: runPipeline_def)
  next
    case (Inr rest)
    obtain log response where rest: "rest = (log, response)" by (cases rest)
    obtain outcome origin where
      geo: "applyGeoOptimization (applyHtmlGeo hs) response (ctx\<lparr>ctx_response := response\<rparr>) (geo cfg) =
              (outcome, origin)"
      by (cases "applyGeoOptimization (applyHtmlGeo hs) response (ctx\<lparr>ctx_response := response\<rparr>) (geo cfg)")
    show ?thesis
      using loop Inr rest geo by (cases outcome) (simp_all add: runPipeline_def)
  qed
qed

text \<open>A stage that throws is logged, and the loop goes on with the stages after it.\<close>

lemma run_stages_after_throw:
  "run stage ctx cfg f = (Inl e, origin) \<Longrightarrow>
   run_stages (stage # rest) ctx cfg f log =
     run_stages rest (ctx\<lparr>ctx_response := origin\<rparr>) cfg f (log @ [name stage])"
  by simp

text \<open>When the GEO engine throws, the response returned is the one it was given, in the
  state the engine left it in.\<close>

lemma runPipeline_geo_throws:
  assumes "run_stages (stages hs) ctx cfg f [] = Inr (Inr (log, response))"
      and "geo_enabled (geo cfg)" and "isAiBot ctx"
      and "applyGeoOptimization (applyHtmlGeo hs) response (ctx\<lparr>ctx_response := response\<rparr>) (geo cfg) =
             (Inl e, origin)"
  shows "runPipeline hs ctx cfg f =
           Inr \<lparr>pr_response = origin, appliedRules = [], pr_pageType = ctx_pageType ctx,
                logged = log @ [''geo'']\<rparr>"
  using assms by (simp add: runPipeline_def)

text \<open>\<^verbatim>\<open>applyTextGeo\<close> reads the body before it looks for the matching rule: when that
  throws, the response it was given has been read.\<close>

lemma applyTextGeo_throws_after_reading:
  assumes "body resp = Some b" and "\<not> bodyUsed resp"
      and "findMatchingRule (pathname ctx) (rules config) = Inl e"
  shows "applyTextGeo resp ctx config = (Inl e, resp\<lparr>bodyUsed := True\<rparr>)"
  using assms by (simp add: applyTextGeo_def response_text_def)

text \<open>A name that the \<^verbatim>\<open>files\<close> object inherits is looked up like a configured file:
  the handler is called with what was found, and its response is served.\<close>

lemma well_known_stage_inherited_name:
  assumes "wk_enabled (wellKnown cfg)" and "pathname ctx = ''/.well-known/constructor''"
      and "files (wellKnown cfg) = \<lparr>own_files = fs, files_proto = None\<rparr>"
      and "map_of fs ''constructor'' = None"
      and "handleWellKnown hs ''constructor'' Foreign = Inr r"
  shows "run (well_known_stage hs) ctx cfg f =
           (Inr \<lparr>handled = True, sr_response = Some r\<rparr>, ctx_response ctx)"
proof -
  have p: "startsWith ''/.well-known/constructor'' ''/.well-known/''" by code_simp
  have n: "replaceFirst ''/.well-known/'' [] ''/.well-known/constructor'' = ''constructor''"
    by code_simp
  have g: "files_get \<lparr>own_files = fs, files_proto = None\<rparr> ''constructor'' = Foreign"
    using assms(4) by (simp add: files_get_def object_prototype_names_def)
  show ?thesis
    using assms(1,5) by (simp add: well_known_stage_def assms(2) assms(3) p n g)
qed

text \<open>
  Claim C1 fails in the code where the GEO engine throws after it has read the body. An
  AI bot asks for \<^verbatim>\<open>/page\<close>; the origin response is plain text with an unread body; the
  managed files are switched off and the GEO section has one rule, with the pattern
  \<^verbatim>\<open>?a\<close>. No stage handles the request. \<^verbatim>\<open>applyTextGeo\<close> reads the body and then
  \<^verbatim>\<open>findMatchingRule\<close> throws a \<^verbatim>\<open>SyntaxError\<close>. \<^verbatim>\<open>runPipeline\<close> catches it and returns,
  with no rule applied, the response of the context, whose body has been read: it is
  not the origin response as it was received, and reading its body throws. This holds
  whatever the four handlers and the origin fetch are.
\<close>

theorem runPipeline_returns_consumed_response:
  "ctx_response page_request = origin_response \<and>
   response_text origin_response = (Inr ''origin body'', origin_response\<lparr>bodyUsed := True\<rparr>) \<and>
   runPipeline hs page_request geo_only originFetch =
     Inr \<lparr>pr_response = origin_response\<lparr>bodyUsed := True\<rparr>, appliedRules = [],
          pr_pageType = None, logged = [''geo'']\<rparr> \<and>
   bodyUsed origin_response = False \<and>
   response_text (origin_response\<lparr>bodyUsed := True\<rparr>) =
     (Inl (Exn ''TypeError: body already used''), origin_response\<lparr>bodyUsed := True\<rparr>)"
proof -
  have c: "ctx_response page_request = origin_response"
    by (simp add: page_request_def)
  have t: "response_text origin_response = (Inr ''origin body'', origin_response\<lparr>bodyUsed := True\<rparr>)"
    by (simp add: response_text_def origin_response_def)
  have loop: "run_stages (stages hs) page_request geo_only originFetch [] =
                Inr (Inr ([], origin_response))"
    by (simp add: stages_def robots_stage_def sitemap_stage_def well_known_stage_def
          not_handled_def geo_only_def page_request_def)
  have same: "page_request\<lparr>ctx_response := origin_response\<rparr> = page_request"
    by (simp add: page_request_def)
  have f: "findMatchingRule (pathname page_request) (rules (geo geo_only)) =
             Inl (Exn ''SyntaxError: nothing to repeat'')"
    by code_simp
  have text_geo: "applyTextGeo origin_response page_request (geo geo_only) =
                    (Inl (Exn ''SyntaxError: nothing to repeat''), origin_response\<lparr>bodyUsed := True\<rparr>)"
    by (rule applyTextGeo_throws_after_reading [OF _ _ f]) (simp_all add: origin_response_def)
  have ct: "headers_get (headers origin_response) ''Content-Type'' = Some ''text/plain''"
    by code_simp
  have html: "\<not> js_includes ''text/plain'' ''text/html''" by code_simp
  have plain: "js_includes ''text/plain'' ''text/plain''" by code_simp
  have engine: "applyGeoOptimization (applyHtmlGeo hs) origin_response page_request (geo geo_only) =
                  (Inl (Exn ''SyntaxError: nothing to repeat''), origin_response\<lparr>bodyUsed := True\<rparr>)"
    by (simp add: applyGeoOptimization_def ct html plain text_geo)
  have on: "geo_enabled (geo geo_only)" "isAiBot page_request" "ctx_pageType page_request = None"
    by (simp_all add: geo_only_def page_request_def)
  have run: "runPipeline hs page_request geo_only originFetch =
               Inr \<lparr>pr_response = origin_response\<lparr>bodyUsed := True\<rparr>, appliedRules = [],
                    pr_pageType = None, logged = [''geo'']\<rparr>"
    using runPipeline_geo_throws [OF loop on(1) on(2), unfolded same, OF engine] by (simp add: on(3))
  have ne: "bodyUsed origin_response = False"
    by (simp add: origin_response_def)
  have again: "response_text (origin_response\<lparr>bodyUsed := True\<rparr>) =
                 (Inl (Exn ''TypeError: body already used''), origin_response\<lparr>bodyUsed := True\<rparr>)"
    by (simp add: response_text_def origin_response_def)
  show ?thesis using c t run ne again by (intro conjI)
qed

section \<open>Proofs: the heading enricher\<close>

subsection \<open>The scanner\<close>

lemma enrich_None: "parse_heading (c # cs) = None \<Longrightarrow> enrich pt k (c # cs) = c # enrich pt k cs"
  by (simp add: enrich.simps)

lemma enrich_Some:
  assumes "parse_heading s = Some (d, attrs, contents, rest)"
  shows "enrich pt k s =
         heading_text pt k (take (length s - length rest) s) d attrs contents @ enrich pt (Suc k) rest"
proof (cases s)
  case Nil
  with assms show ?thesis by (simp add: parse_heading_def)
next
  case (Cons c cs)
  with assms show ?thesis by (simp add: enrich.simps)
qed

lemma first_gt_unique:
  assumes "a @ CHR ''>'' # t = b @ CHR ''>'' # u" "CHR ''>'' \<notin> set a" "CHR ''>'' \<notin> set b"
  shows "a = b \<and> t = u"
  using assms
proof (induction a arbitrary: b)
  case Nil
  then show ?case by (cases b) auto
next
  case (Cons c a)
  then show ?case by (cases b) auto
qed

lemma dropWhile_first_gt:
  "CHR ''>'' \<notin> set a \<Longrightarrow> dropWhile (\<lambda>c. c \<noteq> CHR ''>'') (a @ CHR ''>'' # t) = CHR ''>'' # t"
  by (induction a) auto

lemma takeWhile_first_gt:
  "CHR ''>'' \<notin> set a \<Longrightarrow> takeWhile (\<lambda>c. c \<noteq> CHR ''>'') (a @ CHR ''>'' # t) = a"
  by (induction a) auto

lemma parse_heading_iff:
  "parse_heading s = Some (d, attrs, contents, rest) \<longleftrightarrow>
   (\<exists>h after_tag. is_h h \<and> is_level d \<and> CHR ''>'' \<notin> set attrs \<and>
      s = CHR ''<'' # h # d # attrs @ CHR ''>'' # after_tag \<and>
      find_closer d after_tag = Some (contents, rest))"
proof
  assume p: "parse_heading s = Some (d, attrs, contents, rest)"
  then obtain a h e after_level where s: "s = a # h # e # after_level"
    by (auto simp: parse_heading_def split: list.splits)
  from p s have hd: "a = CHR ''<''" "is_h h" "is_level e"
    by (auto simp: parse_heading_def split: if_splits)
  from p s hd obtain g after_tag where
    dw: "dropWhile (\<lambda>c. c \<noteq> CHR ''>'') after_level = g # after_tag"
    by (auto simp: parse_heading_def split: list.splits)
  from p s hd dw have fc: "find_closer e after_tag = Some (contents, rest)"
    and d: "d = e" and attrs: "attrs = takeWhile (\<lambda>c. c \<noteq> CHR ''>'') after_level"
    by (auto simp: parse_heading_def split: option.splits)
  from dw have g: "g = CHR ''>''"
    using hd_dropWhile [of "\<lambda>c. c \<noteq> CHR ''>''" after_level] by auto
  have "after_level = attrs @ g # after_tag"
    using takeWhile_dropWhile_id [of "\<lambda>c. c \<noteq> CHR ''>''" after_level] dw attrs by simp
  moreover have "CHR ''>'' \<notin> set attrs"
    using attrs set_takeWhileD [of "CHR ''>''" "\<lambda>c. c \<noteq> CHR ''>''" after_level] by auto
  ultimately show "\<exists>h after_tag. is_h h \<and> is_level d \<and> CHR ''>'' \<notin> set attrs \<and>
      s = CHR ''<'' # h # d # attrs @ CHR ''>'' # after_tag \<and>
      find_closer d after_tag = Some (contents, rest)"
    using s hd d g fc by auto
next
  assume "\<exists>h after_tag. is_h h \<and> is_level d \<and> CHR ''>'' \<notin> set attrs \<and>
      s = CHR ''<'' # h # d # attrs @ CHR ''>'' # after_tag \<and>
      find_closer d after_tag = Some (contents, rest)"
  then show "parse_heading s = Some (d, attrs, contents, rest)"
    by (auto simp: parse_heading_def dropWhile_first_gt takeWhile_first_gt)
qed

lemma parse_heading_NoneD:
  assumes "parse_heading s = None" "is_h h" "is_level d" "CHR ''>'' \<notin> set attrs"
    "s = CHR ''<'' # h # d # attrs @ CHR ''>'' # after_tag"
  shows "find_closer d after_tag = None"
proof (cases "find_closer d after_tag")
  case None
  then show ?thesis .
next
  case (Some res)
  obtain x r where "res = (x, r)" by (cases res) auto
  with Some assms(2-5) have "parse_heading s = Some (d, attrs, x, r)"
    unfolding parse_heading_iff by blast
  with assms(1) show ?thesis by simp
qed

lemma parse_heading_SomeD:
  assumes "parse_heading s \<noteq> None"
  shows "\<exists>h d attrs after_tag. is_h h \<and> is_level d \<and> CHR ''>'' \<notin> set attrs \<and>
        s = CHR ''<'' # h # d # attrs @ CHR ''>'' # after_tag \<and> find_closer d after_tag \<noteq> None"
proof -
  from assms obtain res where "parse_heading s = Some res" by auto
  moreover obtain d attrs contents rest where "res = (d, attrs, contents, rest)" by (cases res) auto
  ultimately have "parse_heading s = Some (d, attrs, contents, rest)" by simp
  then obtain h after_tag where "is_h h" "is_level d" "CHR ''>'' \<notin> set attrs"
    "s = CHR ''<'' # h # d # attrs @ CHR ''>'' # after_tag"
    "find_closer d after_tag = Some (contents, rest)"
    unfolding parse_heading_iff by blast
  then have "is_h h \<and> is_level d \<and> CHR ''>'' \<notin> set attrs \<and>
        s = CHR ''<'' # h # d # attrs @ CHR ''>'' # after_tag \<and> find_closer d after_tag \<noteq> None"
    by simp
  then show ?thesis by blast
qed

subsection \<open>A pass creates no heading\<close>

lemma is_h_simps [simp]:
  "\<not> is_h CHR ''<''" "\<not> is_h CHR ''>''" "\<not> is_h CHR '' ''" "\<not> is_h CHR ''/''"
  "is_h CHR ''h''"
  by (simp_all add: is_h_def)

lemma is_level_simps [simp]:
  "\<not> is_level CHR ''<''" "\<not> is_level CHR ''>''" "\<not> is_level CHR '' ''"
  "\<not> is_level CHR ''/''"
  by (simp_all add: is_level_def)

lemma is_level_not_h: "is_level d \<Longrightarrow> \<not> is_h d"
  by (auto simp: is_level_def is_h_def)

lemma sim_append: "sim t t' \<Longrightarrow> sim (x @ t) (x @ t')"
  by (induction x) (auto intro: sim_copy)

lemma sim_refl: "sim s s"
  by (induction s) (auto intro: sim.intros)

lemma sim_Cons_plain:
  assumes "sim s (c # t')" "\<not> is_h c" "c \<noteq> CHR '' ''"
  shows "\<exists>t. s = c # t \<and> sim t t'"
  using assms by (cases rule: sim.cases) auto

lemma sim_Cons_h:
  assumes "sim s (c # t')" "is_h c"
  shows "\<exists>h t. s = h # t \<and> is_h h \<and> sim t t'"
  using assms by (cases rule: sim.cases) auto

lemma sim_Cons_cases:
  assumes "sim t (c # u')"
  shows "(\<exists>u. t = c # u \<and> sim u u') \<or>
         (\<exists>e u. t = e # u \<and> is_h e \<and> is_h c \<and> sim u u') \<or>
         (\<exists>u w s'. c = CHR '' '' \<and> t = CHR ''>'' # u \<and> u' = w @ CHR ''>'' # s' \<and>
            CHR ''<'' \<notin> set w \<and> CHR ''>'' \<notin> set w \<and> sim u s')"
  using assms by (cases rule: sim.cases) auto

lemma sim_first_gt:
  "sim t (a' @ CHR ''>'' # after') \<Longrightarrow> CHR ''>'' \<notin> set a' \<Longrightarrow>
   \<exists>a after. t = a @ CHR ''>'' # after \<and> CHR ''>'' \<notin> set a \<and> sim after after'"
proof (induction a' arbitrary: t)
  case Nil
  then have "sim t (CHR ''>'' # after')" by simp
  from sim_Cons_plain [OF this] obtain u where u: "t = CHR ''>'' # u" "sim u after'" by auto
  show ?case
  proof (intro exI conjI)
    show "t = [] @ CHR ''>'' # u" using u by simp
    show "CHR ''>'' \<notin> set []" by simp
    show "sim u after'" by (rule u(2))
  qed
next
  case (Cons c a1)
  from Cons.prems(2) have c: "c \<noteq> CHR ''>''" and a1: "CHR ''>'' \<notin> set a1" by auto
  from Cons.prems(1) have "sim t (c # (a1 @ CHR ''>'' # after'))" by simp
  from sim_Cons_cases [OF this] show ?case
  proof (elim disjE exE conjE)
    fix u assume t: "t = c # u" and u: "sim u (a1 @ CHR ''>'' # after')"
    from Cons.IH [OF u a1] obtain a after where
      a: "u = a @ CHR ''>'' # after" "CHR ''>'' \<notin> set a" "sim after after'" by blast
    show ?thesis
    proof (intro exI conjI)
      show "t = (c # a) @ CHR ''>'' # after" using t a(1) by simp
      show "CHR ''>'' \<notin> set (c # a)" using c a(2) by simp
      show "sim after after'" by (rule a(3))
    qed
  next
    fix e u assume t: "t = e # u" and e: "is_h e" and u: "sim u (a1 @ CHR ''>'' # after')"
    from Cons.IH [OF u a1] obtain a after where
      a: "u = a @ CHR ''>'' # after" "CHR ''>'' \<notin> set a" "sim after after'" by blast
    from e have e': "e \<noteq> CHR ''>''" by (auto simp: is_h_def)
    show ?thesis
    proof (intro exI conjI)
      show "t = (e # a) @ CHR ''>'' # after" using t a(1) by simp
      show "CHR ''>'' \<notin> set (e # a)" using e' a(2) by simp
      show "sim after after'" by (rule a(3))
    qed
  next
    fix u w s'
    assume t: "t = CHR ''>'' # u" and eq: "a1 @ CHR ''>'' # after' = w @ CHR ''>'' # s'"
      and w: "CHR ''>'' \<notin> set w" and u: "sim u s'"
    from first_gt_unique [OF eq a1 w] have "after' = s'" by simp
    show ?thesis
    proof (intro exI conjI)
      show "t = [] @ CHR ''>'' # u" using t by simp
      show "CHR ''>'' \<notin> set []" by simp
      show "sim u after'" using u \<open>after' = s'\<close> by simp
    qed
  qed
qed

lemma find_closer_skip:
  "CHR ''<'' \<notin> set x \<Longrightarrow> (find_closer d (x @ t) = None) = (find_closer d t = None)"
proof (induction x)
  case Nil
  then show ?case by simp
next
  case (Cons c x)
  then have "\<not> is_closer d (c # x @ t)" by (auto elim: is_closer.elims(2))
  with Cons show ?case by simp
qed

lemma find_closer_skipD:
  "CHR ''<'' \<notin> set x \<Longrightarrow> find_closer d (x @ t) \<noteq> None \<Longrightarrow> find_closer d t \<noteq> None"
  using find_closer_skip [of x d t] by simp

lemma sim_closer_here:
  assumes "sim s s'" "is_closer d s'" "is_level d"
  shows "is_closer d s"
proof -
  from assms(2) obtain h r' where s': "s' = CHR ''<'' # CHR ''/'' # h # d # CHR ''>'' # r'" and h: "is_h h"
    by (auto elim: is_closer.elims(2))
  from assms(1) s' obtain t1 where t1: "s = CHR ''<'' # t1" "sim t1 (CHR ''/'' # h # d # CHR ''>'' # r')"
    using sim_Cons_plain [of s "CHR ''<''"] by auto
  then obtain t2 where t2: "t1 = CHR ''/'' # t2" "sim t2 (h # d # CHR ''>'' # r')"
    using sim_Cons_plain [of t1 "CHR ''/''"] by auto
  then obtain h0 t3 where t3: "t2 = h0 # t3" "is_h h0" "sim t3 (d # CHR ''>'' # r')"
    using sim_Cons_h [OF _ h] by blast
  have "\<not> is_h d" "d \<noteq> CHR '' ''" using assms(3) by (auto simp: is_level_def is_h_def)
  with t3 obtain t4 where t4: "t3 = d # t4" "sim t4 (CHR ''>'' # r')"
    using sim_Cons_plain [of t3 d] by auto
  then obtain t5 where t5: "t4 = CHR ''>'' # t5"
    using sim_Cons_plain [of t4 "CHR ''>''"] by auto
  from t1 t2 t3 t4 t5 show ?thesis by simp
qed

lemma sim_closer:
  "sim s s' \<Longrightarrow> is_level d \<Longrightarrow> find_closer d s' \<noteq> None \<Longrightarrow> find_closer d s \<noteq> None"
proof (induction rule: sim.induct)
  case sim_Nil
  then show ?case by simp
next
  case (sim_copy s s' c)
  show ?case
  proof (cases "is_closer d (c # s')")
    case True
    then have "is_closer d (c # s)"
      using sim_closer_here [OF sim.sim_copy [OF sim_copy.hyps] _ sim_copy.prems(1)] by simp
    then show ?thesis by simp
  next
    case False
    with sim_copy.prems have "find_closer d s' \<noteq> None" by simp
    with sim_copy.IH sim_copy.prems(1) have "find_closer d s \<noteq> None" by simp
    then show ?thesis by auto
  qed
next
  case (sim_h s s' c c')
  from sim_h.hyps have "\<not> is_closer d (c' # s')" by (auto elim: is_closer.elims(2))
  with sim_h.prems have "find_closer d s' \<noteq> None" by simp
  with sim_h.IH sim_h.prems(1) have "find_closer d s \<noteq> None" by simp
  then show ?case by auto
next
  case (sim_ins s s' w)
  have eq: "CHR '' '' # w @ CHR ''>'' # s' = (CHR '' '' # w @ [CHR ''>'']) @ s'" by simp
  have "CHR ''<'' \<notin> set (CHR '' '' # w @ [CHR ''>''])" using sim_ins.hyps by simp
  moreover have "find_closer d ((CHR '' '' # w @ [CHR ''>'']) @ s') \<noteq> None"
    using sim_ins.prems(2) unfolding eq .
  ultimately have "find_closer d s' \<noteq> None" by (rule find_closer_skipD)
  then have "find_closer d s \<noteq> None" by (rule sim_ins.IH [OF sim_ins.prems(1)])
  then show ?case by auto
qed

lemma sim_parse_None:
  assumes "sim s s'" "parse_heading s = None"
  shows "parse_heading s' = None"
proof (rule ccontr)
  assume "parse_heading s' \<noteq> None"
  from parse_heading_SomeD [OF this] obtain h d attrs' after' where h: "is_h h" and d: "is_level d"
    and attrs': "CHR ''>'' \<notin> set attrs'"
    and s': "s' = CHR ''<'' # h # d # attrs' @ CHR ''>'' # after'"
    and closer: "find_closer d after' \<noteq> None"
    by blast
  from assms(1) have "sim s (CHR ''<'' # h # d # attrs' @ CHR ''>'' # after')" unfolding s' .
  from sim_Cons_plain [OF this] obtain t1 where
    t1: "s = CHR ''<'' # t1" "sim t1 (h # d # attrs' @ CHR ''>'' # after')"
    by auto
  from sim_Cons_h [OF t1(2) h] obtain h0 t2 where
    t2: "t1 = h0 # t2" "is_h h0" "sim t2 (d # attrs' @ CHR ''>'' # after')"
    by blast
  have "\<not> is_h d" "d \<noteq> CHR '' ''" using d by (auto simp: is_level_def is_h_def)
  from sim_Cons_plain [OF t2(3) this] obtain t3 where
    t3: "t2 = d # t3" "sim t3 (attrs' @ CHR ''>'' # after')"
    by auto
  from sim_first_gt [OF t3(2) attrs'] obtain attrs after where
    t4: "t3 = attrs @ CHR ''>'' # after" "CHR ''>'' \<notin> set attrs" "sim after after'"
    by blast
  from sim_closer [OF t4(3) d closer] have "find_closer d after \<noteq> None" .
  moreover have "s = CHR ''<'' # h0 # d # attrs @ CHR ''>'' # after"
    using t1(1) t2(1) t3(1) t4(1) by simp
  from parse_heading_NoneD [OF assms(2) t2(2) d t4(2) this] have "find_closer d after = None" .
  ultimately show False by simp
qed

subsection \<open>What a pass writes\<close>

lemma code_eq_iff: "(c = d) = (code c = code d)"
  by (simp add: code_def)

lemma code_char_of: "n < 256 \<Longrightarrow> code (char_of n) = n"
  by (simp add: code_def)

lemma show_nat_digits: "c \<in> set (show_nat n) \<Longrightarrow> 48 \<le> code c \<and> code c \<le> 57"
proof (induction n rule: show_nat.induct)
  case (1 n)
  show ?case
  proof (cases "n < 10")
    case True
    with "1.prems" have "c = char_of (48 + n)" by (simp add: show_nat.simps [of n])
    with True show ?thesis by (simp add: code_char_of)
  next
    case False
    with "1.prems" have "c \<in> set (show_nat (n div 10)) \<or> c = char_of (48 + n mod 10)"
      by (auto simp: show_nat.simps [of n])
    then show ?thesis
    proof
      assume "c \<in> set (show_nat (n div 10))"
      with "1.IH" False show ?thesis by simp
    next
      assume "c = char_of (48 + n mod 10)"
      moreover have "n mod 10 < 10" by simp
      ultimately show ?thesis by (simp add: code_char_of)
    qed
  qed
qed

lemma show_nat_plain: "CHR ''<'' \<notin> set (show_nat n) \<and> CHR ''>'' \<notin> set (show_nat n)"
proof -
  have "code CHR ''<'' = 60" "code CHR ''>'' = 62" by (simp_all add: code_def)
  then show ?thesis using show_nat_digits [of "CHR ''<''" n] show_nat_digits [of "CHR ''>''" n]
    by auto
qed

lemma page_type_str_plain:
  "CHR ''<'' \<notin> set (page_type_str pt) \<and> CHR ''>'' \<notin> set (page_type_str pt)"
  by (cases pt) simp_all

lemma is_level_plain: "is_level d \<Longrightarrow> d \<noteq> CHR ''<'' \<and> d \<noteq> CHR ''>''"
  by (auto simp: is_level_def)

text \<open>The added attributes: a space, the marker, and text without \<^verbatim>\<open><\<close> and \<^verbatim>\<open>>\<close>.\<close>

lemma enriched_attrs_parts:
  assumes "is_level d"
  shows "\<exists>w. enriched_attrs pt k [d] = CHR '' '' # section_marker @ w \<and>
             CHR ''<'' \<notin> set (section_marker @ w) \<and> CHR ''>'' \<notin> set (section_marker @ w)"
proof -
  let ?w = "''='' @ [CHR 0x22] @ show_nat k @ [CHR 0x22] @
     '' data-botmon-level='' @ [CHR 0x22] @ [d] @ [CHR 0x22] @
     '' data-botmon-page-type='' @ [CHR 0x22] @ page_type_str pt @ [CHR 0x22]"
  have "enriched_attrs pt k [d] = CHR '' '' # section_marker @ ?w"
    by (simp add: enriched_attrs_def section_marker_def)
  moreover have "CHR ''<'' \<notin> set (section_marker @ ?w) \<and> CHR ''>'' \<notin> set (section_marker @ ?w)"
    using show_nat_plain [of k] page_type_str_plain [of pt] is_level_plain [OF assms]
    by (auto simp: section_marker_def)
  ultimately show ?thesis by blast
qed

lemma js_includes_iff: "js_includes s t \<longleftrightarrow> (\<exists>x y. s = x @ t @ y)"
proof (induction s)
  case Nil
  then show ?case by simp
next
  case (Cons c cs)
  show ?case
  proof
    assume "js_includes (c # cs) t"
    then have "prefix t (c # cs) \<or> js_includes cs t" by simp
    then show "\<exists>x y. c # cs = x @ t @ y"
    proof
      assume "prefix t (c # cs)"
      then obtain y where "c # cs = t @ y" by (auto simp: prefix_def)
      then have "c # cs = [] @ t @ y" by simp
      then show ?thesis by blast
    next
      assume "js_includes cs t"
      with Cons.IH obtain x y where "cs = x @ t @ y" by blast
      then have "c # cs = (c # x) @ t @ y" by simp
      then show ?thesis by blast
    qed
  next
    assume "\<exists>x y. c # cs = x @ t @ y"
    then obtain x y where xy: "c # cs = x @ t @ y" by blast
    show "js_includes (c # cs) t"
    proof (cases x)
      case Nil
      with xy have "prefix t (c # cs)" by (simp add: prefix_def)
      then show ?thesis by simp
    next
      case (Cons e x')
      with xy have "cs = x' @ t @ y" by simp
      with Cons.IH have "js_includes cs t" by blast
      then show ?thesis by simp
    qed
  qed
qed

text \<open>The text of a heading after a pass: the opening tag holds the marker and no
  \<^verbatim>\<open>>\<close>, the contents are as before, and the rest of the text follows.\<close>

lemma heading_text_parts:
  assumes "is_h h" "is_h h'" "is_level d" "CHR ''>'' \<notin> set attrs"
  shows "\<exists>h1 h2 attrs'. is_h h1 \<and> is_h h2 \<and> CHR ''>'' \<notin> set attrs' \<and>
           js_includes attrs' section_marker \<and>
           (\<forall>t t'. sim t t' \<longrightarrow> sim (attrs @ CHR ''>'' # t) (attrs' @ CHR ''>'' # t')) \<and>
           heading_text pt k
             (CHR ''<'' # h # d # attrs @ CHR ''>'' # contents @ [CHR ''<'', CHR ''/'', h', d, CHR ''>''])
             d attrs contents =
           CHR ''<'' # h1 # d # attrs' @ CHR ''>'' # contents @ [CHR ''<'', CHR ''/'', h2, d, CHR ''>'']"
proof (cases "js_includes attrs section_marker")
  case True
  show ?thesis
  proof (intro exI conjI)
    show "is_h h" "is_h h'" "CHR ''>'' \<notin> set attrs" "js_includes attrs section_marker"
      by (rule assms True)+
    show "\<forall>t t'. sim t t' \<longrightarrow> sim (attrs @ CHR ''>'' # t) (attrs @ CHR ''>'' # t')"
      by (auto intro: sim_append sim_copy)
    show "heading_text pt k
             (CHR ''<'' # h # d # attrs @ CHR ''>'' # contents @ [CHR ''<'', CHR ''/'', h', d, CHR ''>''])
             d attrs contents =
           CHR ''<'' # h # d # attrs @ CHR ''>'' # contents @ [CHR ''<'', CHR ''/'', h', d, CHR ''>'']"
      using True by (simp add: heading_text_def)
  qed
next
  case False
  from enriched_attrs_parts [OF assms(3)] obtain w where
    w: "enriched_attrs pt k [d] = CHR '' '' # section_marker @ w"
    "CHR ''<'' \<notin> set (section_marker @ w)" "CHR ''>'' \<notin> set (section_marker @ w)"
    by blast
  show ?thesis
  proof (intro exI conjI)
    show "is_h CHR ''h''" "is_h CHR ''h''" by simp_all
    show "CHR ''>'' \<notin> set (attrs @ enriched_attrs pt k [d])"
      using assms(4) w by simp
    have "attrs @ enriched_attrs pt k [d] = (attrs @ '' '') @ section_marker @ w"
      using w(1) by simp
    then show "js_includes (attrs @ enriched_attrs pt k [d]) section_marker"
      unfolding js_includes_iff by blast
    show "\<forall>t t'. sim t t' \<longrightarrow>
            sim (attrs @ CHR ''>'' # t) ((attrs @ enriched_attrs pt k [d]) @ CHR ''>'' # t')"
    proof (intro allI impI)
      fix t t' assume "sim t t'"
      then have "sim (CHR ''>'' # t) (CHR '' '' # (section_marker @ w) @ CHR ''>'' # t')"
        by (rule sim_ins [OF _ w(2) w(3)])
      then have "sim (attrs @ CHR ''>'' # t) (attrs @ CHR '' '' # (section_marker @ w) @ CHR ''>'' # t')"
        by (rule sim_append)
      then show "sim (attrs @ CHR ''>'' # t) ((attrs @ enriched_attrs pt k [d]) @ CHR ''>'' # t')"
        using w(1) by simp
    qed
    show "heading_text pt k
             (CHR ''<'' # h # d # attrs @ CHR ''>'' # contents @ [CHR ''<'', CHR ''/'', h', d, CHR ''>''])
             d attrs contents =
           CHR ''<'' # CHR ''h'' # d # (attrs @ enriched_attrs pt k [d]) @ CHR ''>'' # contents @
           [CHR ''<'', CHR ''/'', CHR ''h'', d, CHR ''>'']"
      using False by (simp add: heading_text_def)
  qed
qed

subsection \<open>A second pass changes nothing\<close>

lemma is_closer_window:
  assumes "is_h h" "is_h h'"
  shows "is_closer d (c # x @ [CHR ''<'', CHR ''/'', h, d, CHR ''>''] @ r) =
         is_closer d (c # x @ [CHR ''<'', CHR ''/'', h', d, CHR ''>''] @ r')"
proof (cases x)
  case Nil
  then show ?thesis by simp
next
  case x1: (Cons a1 l1)
  show ?thesis
  proof (cases l1)
    case Nil
    with x1 show ?thesis by simp
  next
    case x2: (Cons a2 l2)
    show ?thesis
    proof (cases l2)
      case Nil
      with x1 x2 show ?thesis by simp
    next
      case x3: (Cons a3 l3)
      show ?thesis
      proof (cases l3)
        case Nil
        with x1 x2 x3 show ?thesis by simp
      next
        case (Cons a4 l4)
        with x1 x2 x3 show ?thesis by simp
      qed
    qed
  qed
qed

lemma find_closer_swap:
  "find_closer d (x @ [CHR ''<'', CHR ''/'', h, d, CHR ''>''] @ r) = Some (x, r) \<Longrightarrow>
   is_h h \<Longrightarrow> is_h h' \<Longrightarrow>
   find_closer d (x @ [CHR ''<'', CHR ''/'', h', d, CHR ''>''] @ r') = Some (x, r')"
proof (induction x)
  case Nil
  then show ?case by simp
next
  case (Cons c x)
  have no: "\<not> is_closer d (c # x @ [CHR ''<'', CHR ''/'', h, d, CHR ''>''] @ r)"
  proof
    assume "is_closer d (c # x @ [CHR ''<'', CHR ''/'', h, d, CHR ''>''] @ r)"
    with Cons.prems(1) show False by simp
  qed
  with Cons.prems(1) have "find_closer d (x @ [CHR ''<'', CHR ''/'', h, d, CHR ''>''] @ r) = Some (x, r)"
    by auto
  from Cons.IH [OF this Cons.prems(2,3)]
  have "find_closer d (x @ [CHR ''<'', CHR ''/'', h', d, CHR ''>''] @ r') = Some (x, r')" .
  moreover have "\<not> is_closer d (c # x @ [CHR ''<'', CHR ''/'', h', d, CHR ''>''] @ r')"
    using no is_closer_window [OF Cons.prems(2,3), of d c x r r'] by simp
  ultimately show ?case by simp
qed

lemma take_matched: "take (length (m @ r) - length r) (m @ r) = m"
  by simp

lemma parse_heading_shape:
  assumes "parse_heading s = Some (d, attrs, contents, rest)"
  shows "\<exists>h h'. is_h h \<and> is_h h' \<and> is_level d \<and> CHR ''>'' \<notin> set attrs \<and>
           s = (CHR ''<'' # h # d # attrs @ CHR ''>'' # contents @ [CHR ''<'', CHR ''/'', h', d, CHR ''>'']) @
               rest \<and>
           find_closer d (contents @ [CHR ''<'', CHR ''/'', h', d, CHR ''>''] @ rest) =
             Some (contents, rest)"
proof -
  from assms obtain h after_tag where h: "is_h h" "is_level d" "CHR ''>'' \<notin> set attrs"
    and s: "s = CHR ''<'' # h # d # attrs @ CHR ''>'' # after_tag"
    and fc: "find_closer d after_tag = Some (contents, rest)"
    unfolding parse_heading_iff by blast
  from find_closer_parts [OF fc] obtain h' where h': "is_h h'"
    and after_tag: "after_tag = contents @ CHR ''<'' # CHR ''/'' # h' # d # CHR ''>'' # rest"
    by blast
  show ?thesis
  proof (intro exI conjI)
    show "is_h h" "is_h h'" "is_level d" "CHR ''>'' \<notin> set attrs" by (rule h h')+
    show "s = (CHR ''<'' # h # d # attrs @ CHR ''>'' # contents @ [CHR ''<'', CHR ''/'', h', d, CHR ''>'']) @
               rest"
      using s after_tag by simp
    show "find_closer d (contents @ [CHR ''<'', CHR ''/'', h', d, CHR ''>''] @ rest) =
             Some (contents, rest)"
      using fc after_tag by simp
  qed
qed

lemma parse_heading_rebuilt:
  assumes "is_h h" "is_level d" "CHR ''>'' \<notin> set attrs"
    "find_closer d (contents @ [CHR ''<'', CHR ''/'', h', d, CHR ''>''] @ rest) = Some (contents, rest)"
  shows "parse_heading ((CHR ''<'' # h # d # attrs @ CHR ''>'' # contents @
                          [CHR ''<'', CHR ''/'', h', d, CHR ''>'']) @ rest) =
         Some (d, attrs, contents, rest)"
  unfolding parse_heading_iff
proof (intro exI conjI)
  show "is_h h" "is_level d" "CHR ''>'' \<notin> set attrs" by (rule assms)+
  show "(CHR ''<'' # h # d # attrs @ CHR ''>'' # contents @ [CHR ''<'', CHR ''/'', h', d, CHR ''>'']) @ rest =
        CHR ''<'' # h # d # attrs @ CHR ''>'' # contents @ [CHR ''<'', CHR ''/'', h', d, CHR ''>''] @ rest"
    by simp
  show "find_closer d (contents @ [CHR ''<'', CHR ''/'', h', d, CHR ''>''] @ rest) = Some (contents, rest)"
    by (rule assms(4))
qed

text \<open>One step of a pass at a heading: what it writes, how that text relates to the text
  it read, and that a second pass reads the same heading there.\<close>

lemma enrich_heading_step:
  assumes p: "parse_heading s = Some (d, attrs, contents, rest)"
  shows "\<exists>written attrs'.
           enrich pt k s = written @ enrich pt (Suc k) rest \<and>
           js_includes attrs' section_marker \<and>
           (\<forall>t'. sim rest t' \<longrightarrow> sim s (written @ t')) \<and>
           (\<forall>t'. parse_heading (written @ t') = Some (d, attrs', contents, t') \<and>
                 take (length (written @ t') - length t') (written @ t') = written)"
proof -
  from parse_heading_shape [OF p] obtain h h' where h: "is_h h" "is_h h'" "is_level d"
    "CHR ''>'' \<notin> set attrs"
    and s: "s = (CHR ''<'' # h # d # attrs @ CHR ''>'' # contents @ [CHR ''<'', CHR ''/'', h', d, CHR ''>'']) @
               rest"
    and fc: "find_closer d (contents @ [CHR ''<'', CHR ''/'', h', d, CHR ''>''] @ rest) =
             Some (contents, rest)"
    by blast
  let ?m = "CHR ''<'' # h # d # attrs @ CHR ''>'' # contents @ [CHR ''<'', CHR ''/'', h', d, CHR ''>'']"
  from heading_text_parts [OF h, of pt k contents] obtain h1 h2 attrs' where
    h12: "is_h h1" "is_h h2" and attrs': "CHR ''>'' \<notin> set attrs'"
    and marker: "js_includes attrs' section_marker"
    and tails: "\<forall>t t'. sim t t' \<longrightarrow> sim (attrs @ CHR ''>'' # t) (attrs' @ CHR ''>'' # t')"
    and wr: "heading_text pt k ?m d attrs contents =
           CHR ''<'' # h1 # d # attrs' @ CHR ''>'' # contents @ [CHR ''<'', CHR ''/'', h2, d, CHR ''>'']"
    by blast
  let ?w = "CHR ''<'' # h1 # d # attrs' @ CHR ''>'' # contents @ [CHR ''<'', CHR ''/'', h2, d, CHR ''>'']"
  have taken: "take (length s - length rest) s = ?m" unfolding s by (rule take_matched)
  have run: "enrich pt k s = ?w @ enrich pt (Suc k) rest"
    using enrich_Some [OF p, of pt k] taken wr by simp
  have related: "sim s (?w @ t')" if t': "sim rest t'" for t'
  proof -
    have "sim (CHR ''<'' # CHR ''/'' # h' # d # CHR ''>'' # rest) (CHR ''<'' # CHR ''/'' # h2 # d # CHR ''>'' # t')"
      by (intro sim_copy sim_h [OF _ h(2) h12(2)] t')
    then have "sim (contents @ CHR ''<'' # CHR ''/'' # h' # d # CHR ''>'' # rest)
                   (contents @ CHR ''<'' # CHR ''/'' # h2 # d # CHR ''>'' # t')"
      by (rule sim_append)
    with tails have "sim (attrs @ CHR ''>'' # contents @ CHR ''<'' # CHR ''/'' # h' # d # CHR ''>'' # rest)
                   (attrs' @ CHR ''>'' # contents @ CHR ''<'' # CHR ''/'' # h2 # d # CHR ''>'' # t')"
      by blast
    then have "sim (CHR ''<'' # h # d # attrs @ CHR ''>'' # contents @ CHR ''<'' # CHR ''/'' # h' # d # CHR ''>'' # rest)
                   (CHR ''<'' # h1 # d # attrs' @ CHR ''>'' # contents @ CHR ''<'' # CHR ''/'' # h2 # d # CHR ''>'' # t')"
      by (intro sim_copy sim_h [OF _ h(1) h12(1)])
    then show ?thesis unfolding s by simp
  qed
  have again: "parse_heading (?w @ t') = Some (d, attrs', contents, t')" for t'
    by (rule parse_heading_rebuilt [OF h12(1) h(3) attrs' find_closer_swap [OF fc h(2) h12(2)]])
  have taken': "take (length (?w @ t') - length t') (?w @ t') = ?w" for t' by (rule take_matched)
  show ?thesis
  proof (intro exI conjI allI impI)
    show "enrich pt k s = ?w @ enrich pt (Suc k) rest" by (rule run)
    show "js_includes attrs' section_marker" by (rule marker)
    show "sim s (?w @ t')" if "sim rest t'" for t' using related [OF that] .
    show "parse_heading (?w @ t') = Some (d, attrs', contents, t')" for t' by (rule again)
    show "take (length (?w @ t') - length t') (?w @ t') = ?w" for t' by (rule taken')
  qed
qed

lemma sim_enrich: "sim s (enrich pt k s)"
proof (induction pt k s rule: enrich.induct)
  case (1 pt k)
  show ?case by (simp add: enrich.simps sim_Nil)
next
  case (2 pt k c cs)
  show ?case
  proof (cases "parse_heading (c # cs)")
    case None
    from "2.IH"(1) [OF None] have "sim (c # cs) (c # enrich pt k cs)" by (rule sim_copy)
    then show ?thesis using enrich_None [OF None, of pt k] by simp
  next
    case (Some res)
    obtain d attrs contents rest where res: "res = (d, attrs, contents, rest)" by (cases res) auto
    from Some res have p: "parse_heading (c # cs) = Some (d, attrs, contents, rest)" by simp
    have ih: "sim rest (enrich pt (Suc k) rest)"
      by (rule "2.IH"(2) [OF Some res [symmetric] refl refl])
    from enrich_heading_step [OF p, of pt k] obtain written where
      "enrich pt k (c # cs) = written @ enrich pt (Suc k) rest"
      "\<forall>t'. sim rest t' \<longrightarrow> sim (c # cs) (written @ t')"
      by blast
    with ih show ?thesis by simp
  qed
qed

lemma heading_text_marked: "js_includes attrs section_marker \<Longrightarrow> heading_text pt k m d attrs contents = m"
  by (simp add: heading_text_def)

lemma enrich_twice: "enrich pt' k' (enrich pt k s) = enrich pt k s"
proof (induction pt k s arbitrary: k' rule: enrich.induct)
  case (1 pt k)
  show ?case by (simp add: enrich.simps)
next
  case (2 pt k c cs)
  show ?case
  proof (cases "parse_heading (c # cs)")
    case None
    have once: "enrich pt k (c # cs) = c # enrich pt k cs" by (rule enrich_None [OF None])
    have "sim (c # cs) (c # enrich pt k cs)" by (rule sim_copy [OF sim_enrich])
    from sim_parse_None [OF this None]
    have "enrich pt' k' (c # enrich pt k cs) = c # enrich pt' k' (enrich pt k cs)"
      by (rule enrich_None)
    also have "enrich pt' k' (enrich pt k cs) = enrich pt k cs" by (rule "2.IH"(1) [OF None])
    finally show ?thesis unfolding once .
  next
    case (Some res)
    obtain d attrs contents rest where res: "res = (d, attrs, contents, rest)" by (cases res) auto
    from Some res have p: "parse_heading (c # cs) = Some (d, attrs, contents, rest)" by simp
    have ih: "enrich pt' (Suc k') (enrich pt (Suc k) rest) = enrich pt (Suc k) rest"
      by (rule "2.IH"(2) [OF Some res [symmetric] refl refl])
    from enrich_heading_step [OF p, of pt k] obtain written attrs' where
      once: "enrich pt k (c # cs) = written @ enrich pt (Suc k) rest"
      and marker: "js_includes attrs' section_marker"
      and again: "\<forall>t'. parse_heading (written @ t') = Some (d, attrs', contents, t') \<and>
                 take (length (written @ t') - length t') (written @ t') = written"
      by blast
    let ?e = "enrich pt (Suc k) rest"
    from again have p': "parse_heading (written @ ?e) = Some (d, attrs', contents, ?e)"
      and taken: "take (length (written @ ?e) - length ?e) (written @ ?e) = written"
      by blast+
    have "enrich pt' k' (written @ ?e) =
          heading_text pt' k' written d attrs' contents @ enrich pt' (Suc k') ?e"
      using enrich_Some [OF p', of pt' k'] taken by simp
    also have "heading_text pt' k' written d attrs' contents = written"
      by (rule heading_text_marked [OF marker])
    finally show ?thesis unfolding once ih .
  qed
qed

subsection \<open>The characters of the heading expression\<close>

lemma code_upper:
  "code (js_upper_char c) =
     (if (97 \<le> code c \<and> code c \<le> 122) \<or> (224 \<le> code c \<and> code c \<le> 254 \<and> code c \<noteq> 247)
      then code c - 32 else code c)"
proof -
  have "code c < 256" by (simp add: code_def)
  then have "code c - 32 < 256" by simp
  then show ?thesis by (simp add: js_upper_char_def code_char_of)
qed

lemma code_lower:
  "code (js_lower_char c) =
     (if (65 \<le> code c \<and> code c \<le> 90) \<or> (192 \<le> code c \<and> code c \<le> 222 \<and> code c \<noteq> 215)
      then code c + 32 else code c)"
  by (auto simp: js_lower_char_def code_char_of)

lemma lit_ok_code: "lit_ok True a c = (code (js_upper_char a) = code (js_upper_char c))"
  by (simp add: lit_ok_def code_eq_iff [symmetric])

lemma code_literals:
  "code CHR ''<'' = 60" "code CHR ''>'' = 62" "code CHR ''/'' = 47" "code CHR ''h'' = 104"
  "code CHR ''H'' = 72" "code CHR ''1'' = 49" "code CHR ''2'' = 50" "code CHR ''3'' = 51"
  "code CHR ''4'' = 52" "code CHR ''5'' = 53" "code CHR ''6'' = 54"
  by (simp_all add: code_def)

lemma lit_ok_lt: "lit_ok True CHR ''<'' c = (c = CHR ''<'')"
  unfolding lit_ok_code code_upper code_eq_iff [of c] code_literals by auto

lemma lit_ok_gt: "lit_ok True CHR ''>'' c = (c = CHR ''>'')"
  unfolding lit_ok_code code_upper code_eq_iff [of c] code_literals by auto

lemma lit_ok_slash: "lit_ok True CHR ''/'' c = (c = CHR ''/'')"
  unfolding lit_ok_code code_upper code_eq_iff [of c] code_literals by auto

lemma lit_ok_h: "lit_ok True CHR ''h'' c = is_h c"
  unfolding lit_ok_code code_upper is_h_def code_eq_iff [of c] code_literals by auto

lemma is_level_code: "is_level c = (49 \<le> code c \<and> code c \<le> 54)"
  by (auto simp: is_level_def code_eq_iff [of c] code_literals)

lemma lit_ok_level: "is_level d \<Longrightarrow> lit_ok True d c = (c = d)"
  unfolding lit_ok_code code_upper is_level_code code_eq_iff [of c d] by auto

lemma class_level: "class_has True [CRange CHR ''1'' CHR ''6''] c = is_level c"
  unfolding class_has_def is_level_code by (auto simp: code_upper code_lower code_literals)

lemma class_gt: "class_has True [CChar CHR ''>''] c = (c = CHR ''>'')"
proof -
  have "(CHR ''>'' = js_upper_char c) = (62 = code (js_upper_char c))"
    "(CHR ''>'' = js_lower_char c) = (62 = code (js_lower_char c))"
    "(CHR ''>'' = c) = (62 = code c)" "(c = CHR ''>'') = (62 = code c)"
    unfolding code_eq_iff code_literals by auto
  then show ?thesis unfolding class_has_def by (auto simp: code_upper code_lower)
qed

lemma class_any: "class_has True [CSpace, CNonSpace] c"
  by (simp add: class_has_def)

subsection \<open>What the heading expression matches\<close>

text \<open>A starred character class reaches every index up to the end of the run of
  characters of the class: the nearest first when lazy, the farthest first when
  greedy.\<close>

lemma star_iter_class:
  "length inp \<le> k \<Longrightarrow>
   star_iter g (rm ic (Cls neg items)) k (p, inp, caps) =
     (if g then rev else (\<lambda>sts. sts))
       (map (\<lambda>j. (p + j, drop j inp, caps))
          [0 ..< Suc (length (takeWhile (\<lambda>c. class_has ic items c \<noteq> neg) inp))])"
proof (induction k arbitrary: p inp)
  case 0
  then show ?case by simp
next
  case (Suc k)
  show ?case
  proof (cases inp)
    case Nil
    then show ?thesis by simp
  next
    case (Cons c cs)
    show ?thesis
    proof (cases "class_has ic items c \<noteq> neg")
      case False
      with Cons show ?thesis by simp
    next
      case True
      from Suc.prems Cons have "length cs \<le> k" by simp
      from Suc.IH [OF this, of "Suc p"]
      have ih: "star_iter g (rm ic (Cls neg items)) k (Suc p, cs, caps) =
          (if g then rev else (\<lambda>sts. sts))
            (map (\<lambda>j. (Suc p + j, drop j cs, caps))
               [0 ..< Suc (length (takeWhile (\<lambda>c. class_has ic items c \<noteq> neg) cs))])" .
      have shift: "map (\<lambda>j. (p + j, drop j (c # cs), caps)) [0 ..< Suc (Suc n)] =
                   (p, c # cs, caps) # map (\<lambda>j. (Suc p + j, drop j cs, caps)) [0 ..< Suc n]" for n
        by (simp add: map_upt_Suc del: upt_Suc)
      have step: "star_iter g (rm ic (Cls neg items)) (Suc k) (p, c # cs, caps) =
            (if g then star_iter g (rm ic (Cls neg items)) k (Suc p, cs, caps) @ [(p, c # cs, caps)]
             else (p, c # cs, caps) # star_iter g (rm ic (Cls neg items)) k (Suc p, cs, caps))"
        using True by simp
      show ?thesis
        unfolding Cons step ih using True by (simp add: shift del: upt_Suc)
    qed
  qed
qed

lemma concat_map_Nil: "(\<And>x. x \<in> set xs \<Longrightarrow> f x = []) \<Longrightarrow> concat (map f xs) = []"
  by (induction xs) auto

lemma rm_Seq_Lit:
  "rm True (Seq (Lit a) r) (p, inp, caps) =
     (case inp of [] \<Rightarrow> [] | c # cs \<Rightarrow> if lit_ok True a c then rm True r (Suc p, cs, caps) else [])"
  by (simp split: list.splits)

text \<open>\<^verbatim>\<open>([^>]*)>\<close>: the attributes run to the first \<^verbatim>\<open>>\<close>.\<close>

lemma rm_attrs:
  "rm True (Seq (Grp 2 not_gt_star) (Seq (Lit CHR ''>'') r)) (p, inp, caps) =
     (case dropWhile (\<lambda>c. c \<noteq> CHR ''>'') inp of
        [] \<Rightarrow> []
      | g # after \<Rightarrow>
          rm True r (Suc (p + length (takeWhile (\<lambda>c. c \<noteq> CHR ''>'') inp)), after,
                    (2, takeWhile (\<lambda>c. c \<noteq> CHR ''>'') inp) # caps))"
proof -
  let ?P = "\<lambda>c. c \<noteq> CHR ''>''"
  let ?n = "length (takeWhile ?P inp)"
  let ?G = "\<lambda>j. (p + j, drop j inp, (2, take j inp) # caps)"
  let ?F = "rm True (Seq (Lit CHR ''>'') r)"
  have cls: "(\<lambda>c. class_has True [CChar CHR ''>''] c \<noteq> True) = ?P"
    by (simp add: class_gt)
  have "rm True (Grp 2 not_gt_star) (p, inp, caps) =
        map (\<lambda>(p', inp', caps'). (p', inp', (2, take (p' - p) inp) # caps'))
          (rev (map (\<lambda>j. (p + j, drop j inp, caps)) [0 ..< Suc ?n]))"
    using star_iter_class [of inp "length inp" True True True "[CChar CHR ''>'']" p caps]
    unfolding cls by (simp add: not_gt_star_def del: upt_Suc)
  also have "\<dots> = rev (map ?G [0 ..< Suc ?n])"
    by (simp add: rev_map del: upt_Suc)
  also have "\<dots> = ?G ?n # rev (map ?G [0 ..< ?n])" by simp
  finally have states: "rm True (Grp 2 not_gt_star) (p, inp, caps) = ?G ?n # rev (map ?G [0 ..< ?n])" .
  have none: "?F x = []" if "x \<in> set (rev (map ?G [0 ..< ?n]))" for x
  proof -
    from that obtain j where j: "j < ?n" and x: "x = ?G j" by auto
    from j have "j < length inp" using length_takeWhile_le [of ?P inp] by simp
    then have d: "drop j inp = inp ! j # drop (Suc j) inp" by (simp add: Cons_nth_drop_Suc)
    from j have "inp ! j \<noteq> CHR ''>''"
      using nth_mem [of j "takeWhile ?P inp"] takeWhile_nth [of j ?P inp]
        set_takeWhileD [of "inp ! j" ?P inp]
      by simp
    then show ?thesis unfolding x by (simp add: d lit_ok_gt)
  qed
  have "rm True (Seq (Grp 2 not_gt_star) (Seq (Lit CHR ''>'') r)) (p, inp, caps) =
        concat (map ?F (?G ?n # rev (map ?G [0 ..< ?n])))"
    unfolding rm.simps(5) [of True "Grp 2 not_gt_star"] states ..
  also have "\<dots> = ?F (?G ?n)" using concat_map_Nil [of "rev (map ?G [0 ..< ?n])" ?F, OF none] by simp
  also have "\<dots> = (case dropWhile ?P inp of
        [] \<Rightarrow> []
      | g # after \<Rightarrow> rm True r (Suc (p + ?n), after, (2, takeWhile ?P inp) # caps))"
  proof (cases "dropWhile ?P inp")
    case Nil
    then show ?thesis by (simp add: dropWhile_eq_drop [symmetric] del: dropWhile_eq_Nil_conv)
  next
    case (Cons g after)
    then have "g = CHR ''>''" using hd_dropWhile [of ?P inp] by auto
    with Cons show ?thesis
      by (simp add: dropWhile_eq_drop [symmetric] takeWhile_eq_take [symmetric] lit_ok_gt)
  qed
  finally show ?thesis .
qed

text \<open>The closing tag \<^verbatim>\<open><\/h\1>\<close>, with the level in group 1.\<close>

lemma rm_closer:
  assumes "map_of caps 1 = Some [d]" "is_level d"
  shows "rm True (Seq (Lit CHR ''<'') (Seq (Lit CHR ''/'') (Seq (Lit CHR ''h'')
           (Seq (Bref 1) (Seq (Lit CHR ''>'') Eps))))) (q, t, caps) =
         (if is_closer d t then [(q + 5, drop 5 t, caps)] else [])"
proof (cases t)
  case Nil
  then show ?thesis by simp
next
  case t1: (Cons a1 l1)
  show ?thesis
  proof (cases l1)
    case Nil
    with t1 show ?thesis by (simp add: lit_ok_lt)
  next
    case t2: (Cons a2 l2)
    show ?thesis
    proof (cases l2)
      case Nil
      with t1 t2 show ?thesis by (simp add: lit_ok_lt lit_ok_slash)
    next
      case t3: (Cons a3 l3)
      show ?thesis
      proof (cases l3)
        case Nil
        with t1 t2 t3 assms show ?thesis by (simp add: lit_ok_lt lit_ok_slash lit_ok_h)
      next
        case t4: (Cons a4 l4)
        show ?thesis
        proof (cases l4)
          case Nil
          with t1 t2 t3 t4 assms show ?thesis
            by (simp add: lit_ok_lt lit_ok_slash lit_ok_h lit_ok_level)
        next
          case (Cons a5 l5)
          with t1 t2 t3 t4 assms show ?thesis
            by (auto simp: lit_ok_lt lit_ok_slash lit_ok_h lit_ok_level lit_ok_gt)
        qed
      qed
    qed
  qed
qed

text \<open>\<^verbatim>\<open>([\s\S]*?)\<close> before the closing tag: the contents end at the first closing tag.\<close>

lemma takeWhile_all: "takeWhile (\<lambda>c. True) xs = xs"
  by (induction xs) simp_all

lemma rm_contents_states:
  "rm True (Grp 3 any_lazy) (p, inp, caps) =
     map (\<lambda>j. (p + j, drop j inp, (3, take j inp) # caps)) [0 ..< Suc (length inp)]"
proof -
  have "(\<lambda>c. class_has True [CSpace, CNonSpace] c \<noteq> False) = (\<lambda>c. True)"
    by (simp add: class_any)
  then show ?thesis
    using star_iter_class [of inp "length inp" False True False "[CSpace, CNonSpace]" p caps]
    by (simp add: any_lazy_def takeWhile_all o_def del: upt_Suc)
qed

lemma lazy_first:
  assumes F: "\<And>q t pre. F (q, t, (3::nat, pre) # caps) =
                 (if is_closer d t then [(q + 5, drop 5 t, (3, pre) # caps)] else [])"
  shows "case find_closer d inp of
           None \<Rightarrow>
             concat (map F (map (\<lambda>j. (p + j, drop j inp, (3, pre @ take j inp) # caps))
                              [0 ..< Suc (length inp)])) = []
         | Some (x, r) \<Rightarrow>
             (\<exists>more.
               concat (map F (map (\<lambda>j. (p + j, drop j inp, (3, pre @ take j inp) # caps))
                                [0 ..< Suc (length inp)])) =
               (p + length x + 5, r, (3, pre @ x) # caps) # more)"
proof (induction inp arbitrary: p pre)
  case Nil
  show ?case by (simp add: F)
next
  case (Cons c cs)
  have shift: "map (\<lambda>j. (p + j, drop j (c # cs), (3, pre @ take j (c # cs)) # caps))
                 [0 ..< Suc (Suc (length cs))] =
               (p, c # cs, (3, pre) # caps) #
               map (\<lambda>j. (Suc p + j, drop j cs, (3, (pre @ [c]) @ take j cs) # caps))
                 [0 ..< Suc (length cs)]"
    by (simp add: map_upt_Suc del: upt_Suc)
  show ?case
  proof (cases "is_closer d (c # cs)")
    case True
    then show ?thesis
      unfolding length_Cons shift by (simp add: F del: upt_Suc)
  next
    case False
    show ?thesis
    proof (cases "find_closer d cs")
      case None
      with Cons.IH [of "Suc p" "pre @ [c]"] False show ?thesis
        unfolding length_Cons shift by (simp add: F del: upt_Suc)
    next
      case (Some res)
      obtain x r where res: "res = (x, r)" by (cases res) auto
      with Some Cons.IH [of "Suc p" "pre @ [c]"] False show ?thesis
        unfolding length_Cons shift by (simp add: F del: upt_Suc)
    qed
  qed
qed

lemma rm_contents:
  assumes "map_of caps 1 = Some [d]" "is_level d"
  shows "case find_closer d inp of
           None \<Rightarrow>
             rm True (Seq (Grp 3 any_lazy)
               (Seq (Lit CHR ''<'') (Seq (Lit CHR ''/'') (Seq (Lit CHR ''h'')
                  (Seq (Bref 1) (Seq (Lit CHR ''>'') Eps)))))) (q, inp, caps) = []
         | Some (x, r) \<Rightarrow>
             (\<exists>more.
                rm True (Seq (Grp 3 any_lazy)
                  (Seq (Lit CHR ''<'') (Seq (Lit CHR ''/'') (Seq (Lit CHR ''h'')
                     (Seq (Bref 1) (Seq (Lit CHR ''>'') Eps)))))) (q, inp, caps) =
                (q + length x + 5, r, (3, x) # caps) # more)"
proof -
  let ?C = "Seq (Lit CHR ''<'') (Seq (Lit CHR ''/'') (Seq (Lit CHR ''h'')
              (Seq (Bref 1) (Seq (Lit CHR ''>'') Eps))))"
  have F: "rm True ?C (q, t, (3, pre) # caps) =
           (if is_closer d t then [(q + 5, drop 5 t, (3, pre) # caps)] else [])" for q t pre
    by (rule rm_closer) (use assms in simp_all)
  have "rm True (Seq (Grp 3 any_lazy) ?C) (q, inp, caps) =
        concat (map (rm True ?C)
          (map (\<lambda>j. (q + j, drop j inp, (3, [] @ take j inp) # caps)) [0 ..< Suc (length inp)]))"
    unfolding rm.simps(5) [of True "Grp 3 any_lazy"] rm_contents_states append_Nil ..
  then show ?thesis
    using lazy_first [where F = "rm True ?C" and caps = caps and d = d and inp = inp and p = q
        and pre = "[]", OF F]
    by (simp only: append_Nil)
qed

lemma rm_level:
  "rm True (Seq (Grp 1 (Cls False [CRange CHR ''1'' CHR ''6''])) r) (q, inp, caps) =
     (case inp of
        [] \<Rightarrow> []
      | d # rest \<Rightarrow> if is_level d then rm True r (Suc q, rest, (1, [d]) # caps) else [])"
  by (simp add: class_level split: list.splits)

lemma heading_re_unfold:
  "heading_re =
     Seq (Lit CHR ''<'') (Seq (Lit CHR ''h'') (Seq (Grp 1 (Cls False [CRange CHR ''1'' CHR ''6'']))
       (Seq (Grp 2 not_gt_star) (Seq (Lit CHR ''>'') (Seq (Grp 3 any_lazy)
          (Seq (Lit CHR ''<'') (Seq (Lit CHR ''/'') (Seq (Lit CHR ''h'')
             (Seq (Bref 1) (Seq (Lit CHR ''>'') Eps))))))))))"
  by (simp add: heading_re_def seq_def)

text \<open>The expression matches at the start of a text exactly when the scanner reads a
  heading there, and its best match is that heading, with the level, the attributes and
  the contents in the groups.\<close>

lemma rm_heading:
  "case parse_heading inp of
     None \<Rightarrow> rm True heading_re (p, inp, []) = []
   | Some (d, attrs, contents, rest) \<Rightarrow>
       (\<exists>more. rm True heading_re (p, inp, []) =
          (p + (length inp - length rest), rest, [(3, contents), (2, attrs), (1, [d])]) # more)"
proof (cases "\<exists>a h d after_level. inp = a # h # d # after_level \<and> a = CHR ''<'' \<and> is_h h \<and> is_level d")
  case False
  then have "parse_heading inp = None"
    by (auto simp: parse_heading_def split: list.splits)
  moreover from False have "rm True heading_re (p, inp, []) = []"
    unfolding heading_re_unfold rm_Seq_Lit rm_level
    by (auto simp: lit_ok_lt lit_ok_h split: list.splits)
  ultimately show ?thesis by simp
next
  case True
  then obtain h d after_level where inp: "inp = CHR ''<'' # h # d # after_level"
    and h: "is_h h" and d: "is_level d"
    by blast
  let ?P = "\<lambda>c. c \<noteq> CHR ''>''"
  let ?R = "Seq (Grp 3 any_lazy)
          (Seq (Lit CHR ''<'') (Seq (Lit CHR ''/'') (Seq (Lit CHR ''h'')
             (Seq (Bref 1) (Seq (Lit CHR ''>'') Eps)))))"
  have run: "rm True heading_re (p, inp, []) =
        (case dropWhile ?P after_level of
           [] \<Rightarrow> []
         | g # after \<Rightarrow>
             rm True ?R (Suc (Suc (Suc (Suc p)) + length (takeWhile ?P after_level)), after,
                        [(2, takeWhile ?P after_level), (1, [d])]))"
    unfolding heading_re_unfold rm_Seq_Lit rm_level rm_attrs inp
    using h d by (simp only: list.case lit_ok_lt lit_ok_h if_True simp_thms)
  show ?thesis
  proof (cases "dropWhile ?P after_level")
    case Nil
    with inp h d have "parse_heading inp = None"
      by (simp add: parse_heading_def del: dropWhile_eq_Nil_conv)
    moreover from run Nil have "rm True heading_re (p, inp, []) = []"
      by (simp only: list.case)
    ultimately show ?thesis by simp
  next
    case (Cons g after)
    have caps: "map_of [(2, takeWhile ?P after_level), (1, [d])] (1::nat) = Some [d]" by simp
    note contents = rm_contents [OF caps d, where inp = after
        and q = "Suc (Suc (Suc (Suc p)) + length (takeWhile ?P after_level))"]
    show ?thesis
    proof (cases "find_closer d after")
      case None
      with inp h d Cons have "parse_heading inp = None" by (simp add: parse_heading_def)
      moreover from contents None run Cons have "rm True heading_re (p, inp, []) = []"
        by (simp only: option.case list.case)
      ultimately show ?thesis by simp
    next
      case (Some res)
      obtain x r where res: "res = (x, r)" by (cases res) auto
      from inp h d Cons Some res
      have parsed: "parse_heading inp = Some (d, takeWhile ?P after_level, x, r)"
        by (simp add: parse_heading_def)
      from parse_heading_shape [OF parsed] have "length inp - length r =
            3 + length (takeWhile ?P after_level) + 1 + length x + 5"
        by auto
      then have pos: "Suc (Suc (Suc (Suc p)) + length (takeWhile ?P after_level)) + length x + 5 =
                 p + (length inp - length r)"
        by simp
      from contents Some res obtain more where
        "rm True ?R (Suc (Suc (Suc (Suc p)) + length (takeWhile ?P after_level)), after,
                        [(2, takeWhile ?P after_level), (1, [d])]) =
         (Suc (Suc (Suc (Suc p)) + length (takeWhile ?P after_level)) + length x + 5, r,
          (3, x) # [(2, takeWhile ?P after_level), (1, [d])]) # more"
        by (auto simp only: option.case prod.case)
      with run Cons pos have "rm True heading_re (p, inp, []) =
          (p + (length inp - length r), r, [(3, x), (2, takeWhile ?P after_level), (1, [d])]) # more"
        by (simp only: list.case)
      with parsed show ?thesis by simp
    qed
  qed
qed

subsection \<open>The replacement is a pass of the scanner\<close>

lemma exec_heading_None:
  "re_exec_from True heading_re p inp = None \<Longrightarrow> enrich pt k inp = inp"
proof (induction inp arbitrary: p)
  case Nil
  show ?case by (simp add: enrich.simps)
next
  case (Cons c cs)
  show ?case
  proof (cases "parse_heading (c # cs)")
    case None
    with rm_heading [where inp = "c # cs" and p = p] have "rm True heading_re (p, c # cs, []) = []" by simp
    with Cons.prems have "re_exec_from True heading_re (Suc p) cs = None"
      by (simp add: re_exec_from.simps [of True heading_re p "c # cs"])
    from Cons.IH [OF this] show ?thesis using enrich_None [OF None, of pt k] by simp
  next
    case (Some res)
    obtain d attrs contents rest where "res = (d, attrs, contents, rest)" by (cases res) auto
    with Some rm_heading [where inp = "c # cs" and p = p] obtain st more where
      "rm True heading_re (p, c # cs, []) = st # more" by auto
    with Cons.prems show ?thesis
      by (cases st) (simp add: re_exec_from.simps [of True heading_re p "c # cs"])
  qed
qed

lemma exec_heading_Some:
  "re_exec_from True heading_re p inp = Some m \<Longrightarrow>
   \<exists>j d attrs contents rest.
     j \<le> length inp \<and> m_start m = p + j \<and>
     parse_heading (drop j inp) = Some (d, attrs, contents, rest) \<and>
     (\<forall>pt k. enrich pt k inp = take j inp @ enrich pt k (drop j inp)) \<and>
     m_text m = take (length (drop j inp) - length rest) (drop j inp) \<and>
     m_groups m = [(3, contents), (2, attrs), (1, [d])]"
proof (induction inp arbitrary: p)
  case Nil
  have "parse_heading [] = None" by (simp add: parse_heading_def)
  with rm_heading [where inp = "[]" and p = p] have "rm True heading_re (p, [], []) = []" by simp
  with Nil show ?case by (simp add: re_exec_from.simps [of True heading_re p "[]"])
next
  case (Cons c cs)
  show ?case
  proof (cases "parse_heading (c # cs)")
    case None
    with rm_heading [where inp = "c # cs" and p = p] have "rm True heading_re (p, c # cs, []) = []" by simp
    with Cons.prems have "re_exec_from True heading_re (Suc p) cs = Some m"
      by (simp add: re_exec_from.simps [of True heading_re p "c # cs"])
    from Cons.IH [OF this] obtain j d attrs contents rest where
      j: "j \<le> length cs" "m_start m = Suc p + j"
      "parse_heading (drop j cs) = Some (d, attrs, contents, rest)"
      "\<forall>pt k. enrich pt k cs = take j cs @ enrich pt k (drop j cs)"
      "m_text m = take (length (drop j cs) - length rest) (drop j cs)"
      "m_groups m = [(3, contents), (2, attrs), (1, [d])]"
      by blast
    show ?thesis
    proof (intro exI conjI allI)
      show "Suc j \<le> length (c # cs)" using j(1) by simp
      show "m_start m = p + Suc j" using j(2) by simp
      show "parse_heading (drop (Suc j) (c # cs)) = Some (d, attrs, contents, rest)"
        using j(3) by simp
      show "enrich pt k (c # cs) = take (Suc j) (c # cs) @ enrich pt k (drop (Suc j) (c # cs))"
        for pt k
        using enrich_None [OF None, of pt k] j(4) by simp
      show "m_text m = take (length (drop (Suc j) (c # cs)) - length rest) (drop (Suc j) (c # cs))"
        using j(5) by simp
      show "m_groups m = [(3, contents), (2, attrs), (1, [d])]" by (rule j(6))
    qed
  next
    case (Some res)
    obtain d attrs contents rest where res: "res = (d, attrs, contents, rest)" by (cases res) auto
    with Some have p: "parse_heading (c # cs) = Some (d, attrs, contents, rest)" by simp
    with rm_heading [where inp = "c # cs" and p = p] obtain more where
      "rm True heading_re (p, c # cs, []) =
         (p + (length (c # cs) - length rest), rest, [(3, contents), (2, attrs), (1, [d])]) # more"
      by auto
    with Cons.prems have m: "m = \<lparr>m_start = p, m_text = take (length (c # cs) - length rest) (c # cs),
                                 m_rest = rest, m_groups = [(3, contents), (2, attrs), (1, [d])]\<rparr>"
      by (simp add: re_exec_from.simps [of True heading_re p "c # cs"])
    show ?thesis
    proof (intro exI conjI allI)
      show "0 \<le> length (c # cs)" by simp
      show "m_start m = p + 0" using m by simp
      show "parse_heading (drop 0 (c # cs)) = Some (d, attrs, contents, rest)" using p by simp
      show "enrich pt k (c # cs) = take 0 (c # cs) @ enrich pt k (drop 0 (c # cs))" for pt k
        by simp
      show "m_text m = take (length (drop 0 (c # cs)) - length rest) (drop 0 (c # cs))"
        using m by simp
      show "m_groups m = [(3, contents), (2, attrs), (1, [d])]" using m by simp
    qed
  qed
qed

lemma enrich_heading_text:
  "m_groups m = [(3, contents), (2, attrs), (1, [d])] \<Longrightarrow>
   enrich_heading pt m k = heading_text pt k (m_text m) d attrs contents"
  by (simp add: enrich_heading_def heading_text_def group_def)

lemma splice_enrich:
  "i \<le> length s \<Longrightarrow>
   splice (drop i s) i
     (map (\<lambda>(m, k). (m, enrich_heading pt m k))
        (zip (re_match_all_from True heading_re s i)
             [k ..< k + length (re_match_all_from True heading_re s i)])) =
   enrich pt k (drop i s)"
proof (induction "length s - i" arbitrary: i k rule: less_induct)
  case less
  let ?inp = "drop i s"
  show ?case
  proof (cases "re_exec_from True heading_re i ?inp")
    case None
    with less.prems have "re_match_all_from True heading_re s i = []"
      by (simp add: re_match_all_from.simps [of True heading_re s i])
    moreover have "enrich pt k ?inp = ?inp" by (rule exec_heading_None [OF None])
    ultimately show ?thesis by simp
  next
    case (Some m)
    from exec_heading_Some [OF Some] obtain j d attrs contents rest where
      j: "j \<le> length ?inp" and start: "m_start m = i + j"
      and p: "parse_heading (drop j ?inp) = Some (d, attrs, contents, rest)"
      and skip: "\<forall>pt k. enrich pt k ?inp = take j ?inp @ enrich pt k (drop j ?inp)"
      and matched: "m_text m = take (length (drop j ?inp) - length rest) (drop j ?inp)"
      and groups: "m_groups m = [(3, contents), (2, attrs), (1, [d])]"
      by blast
    from parse_heading_shape [OF p] obtain w where
      w: "drop j ?inp = w @ rest" and w_len: "0 < length w"
      by auto
    have text_w: "m_text m = w" unfolding matched w by (rule take_matched)
    let ?i' = "i + j + length w"
    have "length (drop j ?inp) = length w + length rest" using w by simp
    then have bound: "?i' \<le> length s" and rest_len: "length rest = length s - ?i'"
      using less.prems j by auto
    have "drop (length w) (drop j ?inp) = rest" using w by simp
    then have rest: "drop ?i' s = rest" by (simp add: add.commute add.left_commute)
    have next_index: "m_start m + length (m_text m) + (if m_text m = [] then 1 else 0) = ?i'"
      using start text_w w_len by simp
    let ?ms = "re_match_all_from True heading_re s ?i'"
    have all: "re_match_all_from True heading_re s i = m # ?ms"
      using less.prems Some next_index
      by (simp add: re_match_all_from.simps [of True heading_re s i])
    have numbers: "[k ..< k + length (m # ?ms)] = k # [Suc k ..< Suc k + length ?ms]"
      using upt_conv_Cons [of k "k + length (m # ?ms)"] by (simp del: upt_Suc)
    have "length s - ?i' < length s - i" using bound w_len by linarith
    from less.hyps [OF this bound, of "Suc k"]
    have ih: "splice rest ?i'
          (map (\<lambda>(m, k). (m, enrich_heading pt m k)) (zip ?ms [Suc k ..< Suc k + length ?ms])) =
          enrich pt (Suc k) rest"
      unfolding rest .
    have "m_start m - i + length (m_text m) = length w + j" using start text_w by simp
    then have after: "drop (m_start m - i + length (m_text m)) ?inp = rest"
      using \<open>drop (length w) (drop j ?inp) = rest\<close> by (simp only: drop_drop [symmetric])
    have "splice ?inp i
            (map (\<lambda>(m, k). (m, enrich_heading pt m k))
               (zip (re_match_all_from True heading_re s i)
                    [k ..< k + length (re_match_all_from True heading_re s i)])) =
          take j ?inp @ enrich_heading pt m k @ enrich pt (Suc k) rest"
      unfolding all numbers using start text_w after ih by simp
    also have "enrich_heading pt m k = heading_text pt k w d attrs contents"
      using enrich_heading_text [OF groups, of pt k] text_w by simp
    also have "take j ?inp @ heading_text pt k w d attrs contents @ enrich pt (Suc k) rest =
               enrich pt k ?inp"
      using skip enrich_Some [OF p, of pt k] matched text_w by simp
    finally show ?thesis .
  qed
qed

lemma enrichHeadings_enrich: "enrichHeadings html pt = enrich pt 1 html"
  using splice_enrich [of 0 html pt 1]
  by (simp add: enrichHeadings_def re_replace_all_def re_match_all_def Let_def)

text \<open>
  Claim C7. \<^verbatim>\<open>enrichHeadings\<close> is idempotent: a second run on the output of a first run
  returns that output, for every text and page type, and even when the second run is
  given another page type. For a heading whose attributes already hold
  \<^verbatim>\<open>data-botmon-section\<close> the callback returns the matched text itself, so such a
  heading is left as it is.
\<close>

theorem enrichHeadings_idempotent:
  "enrichHeadings (enrichHeadings html pt) pt = enrichHeadings html pt \<and>
   enrichHeadings (enrichHeadings html pt) pt' = enrichHeadings html pt \<and>
   (\<forall>m k. js_includes (group m 2) section_marker \<longrightarrow> enrich_heading pt m k = m_text m)"
proof (intro conjI allI impI)
  show "enrichHeadings (enrichHeadings html pt) pt = enrichHeadings html pt"
    unfolding enrichHeadings_enrich by (rule enrich_twice)
  show "enrichHeadings (enrichHeadings html pt) pt' = enrichHeadings html pt"
    unfolding enrichHeadings_enrich by (rule enrich_twice)
  show "enrich_heading pt m k = m_text m" if "js_includes (group m 2) section_marker" for m k
    using that by (simp add: enrich_heading_def)
qed

theorem enrichHeadings_idempotent_witness:
  "enrichHeadings ''<H2>a</h2>'' Docs =
     ''<h2 data-botmon-section='' @ [CHR 0x22] @ ''1'' @ [CHR 0x22] @
     '' data-botmon-level='' @ [CHR 0x22] @ ''2'' @ [CHR 0x22] @
     '' data-botmon-page-type='' @ [CHR 0x22] @ ''docs'' @ [CHR 0x22] @ ''>a</h2>'' \<and>
   enrichHeadings (enrichHeadings ''<H2>a</h2>'' Docs) Docs = enrichHeadings ''<H2>a</h2>'' Docs \<and>
   js_includes (group marked_match 2) section_marker \<and>
   enrich_heading Docs marked_match 7 = m_text marked_match"
proof -
  have once: "enrichHeadings ''<H2>a</h2>'' Docs =
     ''<h2 data-botmon-section='' @ [CHR 0x22] @ ''1'' @ [CHR 0x22] @
     '' data-botmon-level='' @ [CHR 0x22] @ ''2'' @ [CHR 0x22] @
     '' data-botmon-page-type='' @ [CHR 0x22] @ ''docs'' @ [CHR 0x22] @ ''>a</h2>''"
    by code_simp
  have marked: "js_includes (group marked_match 2) section_marker" by code_simp
  show ?thesis
    using enrichHeadings_idempotent [of "''<H2>a</h2>''" Docs Docs] once marked by blast
qed


end
